theory Spec2Isabelle
  imports Main "HOL-Library.Word"
begin

section \<open>Data model of task.go\<close>

text \<open>
  The program is one Go file: a generator goroutine, \<open>NumOut\<close> worker goroutines reading
  one shared channel, one collector goroutine per worker, a goroutine that waits for the
  collectors and closes the result channel, and \<open>main\<close>, which drains the result channel
  and checks three tallies. Go's \<open>int64\<close> is a 64-bit word: \<open>+\<close> and \<open>-\<close> wrap.
\<close>

type_synonym int64 = "64 word"

text \<open>\<open>const NumOut = 5\<close> (line 72).\<close>

definition NumOut :: nat where
  "NumOut = 5"

subsection \<open>The final checks of \<open>main\<close> (lines 129 to 141)\<close>

text \<open>
  \<open>log.Fatalf\<close> writes its message and ends the process with status 1. The three format
  strings are kept apart by name; the arguments are the values the call passes after the
  format string. The formats of lines 131 and 134 have two \<open>%d\<close> verbs each, the format
  of line 140 has none.
\<close>

datatype format = Fmt_Sums_Not_Equal | Fmt_Counts_Not_Equal | Fmt_Split_Wrong

primrec verbs :: "format \<Rightarrow> nat" where
  "verbs Fmt_Sums_Not_Equal = 2"
| "verbs Fmt_Counts_Not_Equal = 2"
| "verbs Fmt_Split_Wrong = 0"

datatype outcome = Returned | Fatalf format "int64 list"

primrec exit_status :: "outcome \<Rightarrow> nat" where
  "exit_status Returned = 0"
| "exit_status (Fatalf f args) = 1"

text \<open>The loop \<open>for _, v := range amounts { inputCount -= v }\<close>.\<close>

fun subtract_all :: "int64 \<Rightarrow> int64 list \<Rightarrow> int64" where
  "subtract_all c [] = c"
| "subtract_all c (v # vs) = subtract_all (c - v) vs"

text \<open>
  The checks return what ends the process together with the value the variable
  \<open>inputCount\<close> has at that moment.
\<close>

definition check_results ::
  "int64 \<Rightarrow> int64 \<Rightarrow> int64 \<Rightarrow> int64 \<Rightarrow> int64 list \<Rightarrow> outcome \<times> int64" where
  "check_results inputSum sum_m inputCount count_m amounts =
     (if inputSum \<noteq> sum_m then (Fatalf Fmt_Sums_Not_Equal [inputSum, sum_m], inputCount)
      else if inputCount \<noteq> count_m then
        (Fatalf Fmt_Counts_Not_Equal [inputCount, count_m], inputCount)
      else let inputCount' = subtract_all inputCount amounts in
        if inputCount' \<noteq> 0 then (Fatalf Fmt_Split_Wrong [], inputCount')
        else (Returned, inputCount'))"

subsection \<open>Channels\<close>

text \<open>
  The program makes \<open>NumOut + 2\<close> channels: \<open>chIn\<close> (line 56), \<open>outs[i]\<close> (line 77) and
  \<open>chOut\<close> (line 84). A channel has the capacity given to \<open>make\<close>, the queue of buffered
  values and a flag set by \<open>close\<close>.
\<close>

datatype chan_id = ChIn | Outs nat | ChOut

record chan =
  ch_cap :: nat
  ch_buf :: "int64 list"
  ch_closed :: bool

definition make_chan :: "nat \<Rightarrow> chan" where
  "make_chan n = \<lparr>ch_cap = n, ch_buf = [], ch_closed = False\<rparr>"

subsection \<open>Goroutines\<close>

text \<open>
  Each goroutine is a record of its parameters and local variables and a program counter
  that names the statement it executes next. A value received and not yet sent on is
  carried by the program counter.
\<close>

datatype gpc = G_Select | G_Send | G_Fn_Sum | G_Fn_Count | G_Incr | G_Close | G_Done

record generator =
  g_pc :: gpc
  g_ch :: chan_id
  g_current :: int64

datatype wpc = W_Recv | W_Send int64 | W_Sleep | W_Close | W_Done

record worker =
  w_pc :: wpc
  w_in :: chan_id
  w_out :: chan_id

text \<open>
  The collector is the function literal of lines 93 to 106. Its parameters are \<open>in\<close> and
  \<open>i\<close>; its body reads the channel from the loop variable \<open>c\<close> of line 91, which it
  captures, and never uses \<open>in\<close>. Each iteration of a Go \<open>for\<close> loop has its own copy of
  the loop variables (the language's rule since Go 1.22), so the captured \<open>c\<close> is a field
  of the collector, set when the goroutine is started.
\<close>

datatype cpc = C_Recv | C_Send int64 | C_Incr | C_Wg_Done | C_Done

record collector =
  c_pc :: cpc
  c_in :: chan_id
  c_c :: chan_id
  c_i :: nat

datatype bpc = B_Wait | B_Close | B_Done

datatype mpc =
    M_Make_ChIn | M_With_Timeout | M_Go_Generator | M_Workers nat | M_Setup
  | M_Collectors nat | M_Go_Barrier | M_Range | M_Report | M_Exited

datatype proc = P_Main | P_Generator | P_Worker nat | P_Collector nat | P_Barrier

text \<open>
  What a run has done to its channels, which values the generator's callback \<open>fn\<close> was
  called with, and which worker has slept for how long, in the order it happened. Nothing
  in the program reads this record.
\<close>

datatype action =
    Sent proc chan_id int64
  | Received proc chan_id int64
  | Saw_Closed proc chan_id
  | Closed proc chan_id
  | Called_Fn int64
  | Slept nat int64

text \<open>The lines \<open>main\<close> prints (lines 125 to 127), as the values passed to \<open>Println\<close>.\<close>

datatype line = Counts int64 int64 | Sums int64 int64 | Split "int64 list"

record state =
  chans :: "chan_id \<rightharpoonup> chan"
  ctx_done :: "bool option"
  inputSum :: int64
  inputCount :: int64
  amounts :: "int64 list"
  wg :: int
  main_pc :: mpc
  count_m :: int64
  sum_m :: int64
  gen :: "generator option"
  workers :: "worker list"
  collectors :: "collector list"
  waiter :: "bpc option"
  panicked :: bool
  stdout :: "line list"
  result :: "outcome option"
  hist :: "action list"

text \<open>The state in which \<open>main\<close> starts: no channel, no context, no other goroutine.\<close>

definition init :: state where
  "init = \<lparr>chans = Map.empty, ctx_done = None, inputSum = 0, inputCount = 0, amounts = [],
     wg = 0, main_pc = M_Make_ChIn, count_m = 0, sum_m = 0, gen = None, workers = [],
     collectors = [], waiter = None, panicked = False, stdout = [], result = None,
     hist = []\<rparr>"

subsection \<open>The statements of the goroutines\<close>

definition set_gpc :: "gpc \<Rightarrow> state \<Rightarrow> state" where
  "set_gpc pc s = s\<lparr>gen := map_option (\<lambda>g. g\<lparr>g_pc := pc\<rparr>) (gen s)\<rparr>"

definition set_wpc :: "nat \<Rightarrow> wpc \<Rightarrow> state \<Rightarrow> state" where
  "set_wpc j pc s = s\<lparr>workers := (workers s)[j := (workers s ! j)\<lparr>w_pc := pc\<rparr>]\<rparr>"

definition set_cpc :: "nat \<Rightarrow> cpc \<Rightarrow> state \<Rightarrow> state" where
  "set_cpc k pc s = s\<lparr>collectors := (collectors s)[k := (collectors s ! k)\<lparr>c_pc := pc\<rparr>]\<rparr>"

definition log :: "action \<Rightarrow> state \<Rightarrow> state" where
  "log a s = s\<lparr>hist := hist s @ [a]\<rparr>"

definition panic :: "state \<Rightarrow> state" where
  "panic s = s\<lparr>panicked := True\<rparr>"

text \<open>
  \<open>close(c)\<close> panics on a nil channel and on a channel that is closed already.
\<close>

definition close_chan :: "proc \<Rightarrow> chan_id \<Rightarrow> state \<Rightarrow> state" where
  "close_chan p c s =
     (case chans s c of
        None \<Rightarrow> panic s
      | Some ch \<Rightarrow>
          if ch_closed ch then panic s
          else log (Closed p c) (s\<lparr>chans := (chans s)(c \<mapsto> ch\<lparr>ch_closed := True\<rparr>)\<rparr>))"

text \<open>
  The send statement a goroutine is at, if any, with the channel and the value:
  \<open>ch <- current\<close> (line 29), \<open>out <- v\<close> (line 49), \<open>chOut <- v\<close> (line 102).
\<close>

fun sending :: "proc \<Rightarrow> state \<Rightarrow> (chan_id \<times> int64) option" where
  "sending P_Generator s =
     (case gen s of
        None \<Rightarrow> None
      | Some g \<Rightarrow> if g_pc g = G_Send then Some (g_ch g, g_current g) else None)"
| "sending (P_Worker j) s =
     (if j < length (workers s) then
        (case w_pc (workers s ! j) of W_Send v \<Rightarrow> Some (w_out (workers s ! j), v) | _ \<Rightarrow> None)
      else None)"
| "sending (P_Collector k) s =
     (if k < length (collectors s) then
        (case c_pc (collectors s ! k) of C_Send v \<Rightarrow> Some (ChOut, v) | _ \<Rightarrow> None)
      else None)"
| "sending P_Main s = None"
| "sending P_Barrier s = None"

text \<open>What the goroutine does once its send has gone through.\<close>

fun sent :: "proc \<Rightarrow> state \<Rightarrow> state" where
  "sent P_Generator s = set_gpc G_Fn_Sum s"
| "sent (P_Worker j) s = set_wpc j W_Sleep s"
| "sent (P_Collector k) s = set_cpc k C_Incr s"
| "sent P_Main s = s"
| "sent P_Barrier s = s"

text \<open>
  The receive statement a goroutine is at, if any, with the channel: \<open>v, ok := <-in\<close>
  (line 44), \<open>v, ok := <-c\<close> (line 98), \<open>for v := range chOut\<close> (line 120).
\<close>

fun receiving :: "proc \<Rightarrow> state \<Rightarrow> chan_id option" where
  "receiving (P_Worker j) s =
     (if j < length (workers s) \<and> w_pc (workers s ! j) = W_Recv
      then Some (w_in (workers s ! j)) else None)"
| "receiving (P_Collector k) s =
     (if k < length (collectors s) \<and> c_pc (collectors s ! k) = C_Recv
      then Some (c_c (collectors s ! k)) else None)"
| "receiving P_Main s = (if main_pc s = M_Range then Some ChOut else None)"
| "receiving P_Generator s = None"
| "receiving P_Barrier s = None"

text \<open>
  What the goroutine does with the value \<open>v\<close> and the flag \<open>ok\<close> of its receive: the
  worker and the collector keep the value for their send or leave their loop (lines 45
  and 99); \<open>main\<close> adds to \<open>count\<close> and \<open>sum\<close> (lines 121 and 122) or leaves the
  \<open>range\<close> loop.
\<close>

fun received :: "proc \<Rightarrow> int64 \<Rightarrow> bool \<Rightarrow> state \<Rightarrow> state" where
  "received (P_Worker j) v ok s = set_wpc j (if ok then W_Send v else W_Close) s"
| "received (P_Collector k) v ok s = set_cpc k (if ok then C_Send v else C_Wg_Done) s"
| "received P_Main v ok s =
     (if ok then s\<lparr>count_m := count_m s + 1, sum_m := sum_m s + v\<rparr>
      else s\<lparr>main_pc := M_Report\<rparr>)"
| "received P_Generator v ok s = s"
| "received P_Barrier v ok s = s"

text \<open>
  The other statements. Each function gives the state after the goroutine's next
  statement, or \<open>None\<close> when the goroutine does not exist, has returned, waits in
  \<open>wg.Wait()\<close>, or is at a send or a receive (those are \<open>exec\<close>'s).

  \<open>Generator\<close> (lines 20 to 34): the \<open>select\<close> with its \<open>default\<close> branch looks at
  \<open>ctx.Done()\<close> without waiting; \<open>fn\<close> is the function literal of lines 67 to 70, two
  atomic additions; the deferred \<open>close(ch)\<close> runs when the function returns.
\<close>

definition Generator :: "state \<Rightarrow> state option" where
  "Generator s =
     (case gen s of
        None \<Rightarrow> None
      | Some g \<Rightarrow>
          (case g_pc g of
             G_Select \<Rightarrow>
               Some (set_gpc (if ctx_done s = Some True then G_Close else G_Send) s)
           | G_Send \<Rightarrow> None
           | G_Fn_Sum \<Rightarrow>
               Some (set_gpc G_Fn_Count
                 (log (Called_Fn (g_current g)) (s\<lparr>inputSum := inputSum s + g_current g\<rparr>)))
           | G_Fn_Count \<Rightarrow> Some (set_gpc G_Incr (s\<lparr>inputCount := inputCount s + 1\<rparr>))
           | G_Incr \<Rightarrow>
               Some (s\<lparr>gen := Some (g\<lparr>g_current := g_current g + 1, g_pc := G_Select\<rparr>)\<rparr>)
           | G_Close \<Rightarrow> Some (close_chan P_Generator (g_ch g) (set_gpc G_Done s))
           | G_Done \<Rightarrow> None))"

text \<open>
  \<open>Worker\<close> (lines 40 to 53): after its send the worker sleeps (line 51) and goes back to
  its receive; when the receive reports \<open>ok = false\<close> it returns, which runs the deferred
  \<open>close(out)\<close>. The model has no clock: the sleep is a step of its own, and the record
  of the run keeps the \<open>time.Duration\<close> it was called with, \<open>time.Millisecond\<close>: an
  \<open>int64\<close> of nanoseconds.
\<close>

definition Millisecond :: int64 where
  "Millisecond = 1000000"

definition Worker :: "nat \<Rightarrow> state \<Rightarrow> state option" where
  "Worker j s =
     (if j < length (workers s) then
        (case w_pc (workers s ! j) of
           W_Sleep \<Rightarrow> Some (set_wpc j W_Recv (log (Slept j Millisecond) s))
         | W_Close \<Rightarrow> Some (close_chan (P_Worker j) (w_out (workers s ! j)) (set_wpc j W_Done s))
         | _ \<Rightarrow> None)
      else None)"

text \<open>
  The collector (lines 93 to 106): \<open>amounts[i]++\<close> after its send (an index out of range
  panics); when the receive reports \<open>ok = false\<close> it returns, which runs the deferred
  \<open>wg.Done()\<close> (a negative counter panics).
\<close>

definition collect :: "nat \<Rightarrow> state \<Rightarrow> state option" where
  "collect k s =
     (if k < length (collectors s) then
        (case c_pc (collectors s ! k) of
           C_Incr \<Rightarrow>
             (let i = c_i (collectors s ! k) in
              if i < length (amounts s)
              then Some (set_cpc k C_Recv (s\<lparr>amounts := (amounts s)[i := amounts s ! i + 1]\<rparr>))
              else Some (panic s))
         | C_Wg_Done \<Rightarrow>
             (if wg s - 1 < 0 then Some (panic s)
              else Some (set_cpc k C_Done (s\<lparr>wg := wg s - 1\<rparr>)))
         | _ \<Rightarrow> None)
      else None)"

text \<open>The goroutine of lines 109 to 114: \<open>wg.Wait()\<close> returns when the counter is 0.\<close>

definition wait_close :: "state \<Rightarrow> state option" where
  "wait_close s =
     (case waiter s of
        Some B_Wait \<Rightarrow> if wg s = 0 then Some (s\<lparr>waiter := Some B_Close\<rparr>) else None
      | Some B_Close \<Rightarrow> Some (close_chan P_Barrier ChOut (s\<lparr>waiter := Some B_Done\<rparr>))
      | _ \<Rightarrow> None)"

text \<open>
  \<open>main\<close> (lines 55 to 142). A \<open>go\<close> statement adds the goroutine at its first statement,
  with its arguments; the two \<open>for\<close> loops carry their index in the program counter.
  The last step prints the three lines and runs the checks; a normal return runs the
  deferred \<open>cancel()\<close>, \<open>log.Fatalf\<close> does not.
\<close>

definition main :: "state \<Rightarrow> state option" where
  "main s =
     (case main_pc s of
        M_Make_ChIn \<Rightarrow>
          Some (s\<lparr>chans := (chans s)(ChIn \<mapsto> make_chan 0), main_pc := M_With_Timeout\<rparr>)
      | M_With_Timeout \<Rightarrow> Some (s\<lparr>ctx_done := Some False, main_pc := M_Go_Generator\<rparr>)
      | M_Go_Generator \<Rightarrow>
          Some (s\<lparr>gen := Some \<lparr>g_pc = G_Select, g_ch = ChIn, g_current = 1\<rparr>,
                  main_pc := M_Workers 0\<rparr>)
      | M_Workers i \<Rightarrow>
          if i < NumOut then
            Some (s\<lparr>chans := (chans s)(Outs i \<mapsto> make_chan 0),
                    workers := workers s @ [\<lparr>w_pc = W_Recv, w_in = ChIn, w_out = Outs i\<rparr>],
                    main_pc := M_Workers (i + 1)\<rparr>)
          else Some (s\<lparr>main_pc := M_Setup\<rparr>)
      | M_Setup \<Rightarrow>
          Some (s\<lparr>amounts := replicate NumOut 0,
                  chans := (chans s)(ChOut \<mapsto> make_chan NumOut),
                  wg := wg s + int NumOut,
                  main_pc := M_Collectors 0\<rparr>)
      | M_Collectors i \<Rightarrow>
          if i < NumOut then
            Some (s\<lparr>collectors := collectors s @
                      [\<lparr>c_pc = C_Recv, c_in = Outs i, c_c = Outs i, c_i = i\<rparr>],
                    main_pc := M_Collectors (i + 1)\<rparr>)
          else Some (s\<lparr>main_pc := M_Go_Barrier\<rparr>)
      | M_Go_Barrier \<Rightarrow> Some (s\<lparr>waiter := Some B_Wait, main_pc := M_Range\<rparr>)
      | M_Range \<Rightarrow> None
      | M_Report \<Rightarrow>
          (let r = check_results (inputSum s) (sum_m s) (inputCount s) (count_m s) (amounts s)
           in Some (s\<lparr>stdout := [Counts (inputCount s) (count_m s), Sums (inputSum s) (sum_m s),
                                  Split (amounts s)],
                      inputCount := snd r,
                      result := Some (fst r),
                      ctx_done := (if fst r = Returned then Some True else ctx_done s),
                      main_pc := M_Exited\<rparr>))
      | M_Exited \<Rightarrow> None)"

fun step_local :: "proc \<Rightarrow> state \<Rightarrow> state option" where
  "step_local P_Main s = main s"
| "step_local P_Generator s = Generator s"
| "step_local (P_Worker j) s = Worker j s"
| "step_local (P_Collector k) s = collect k s"
| "step_local P_Barrier s = wait_close s"

subsection \<open>Runs\<close>

text \<open>
  A run is a sequence of events. \<open>Step p\<close>: goroutine \<open>p\<close> executes its next statement.
  A send on a closed channel panics; a send on a channel with room in its buffer appends
  the value; a receive takes the first buffered value, or reports \<open>ok = false\<close> on a closed
  channel with an empty buffer. Anything else waits, as does every operation on a nil
  channel. \<open>Handoff p q\<close>: on a channel without buffer, the sender \<open>p\<close> and the receiver
  \<open>q\<close> meet at the same channel and the value passes from one to the other. \<open>Deadline\<close>:
  the timer of \<open>context.WithTimeout\<close> fires and closes \<open>ctx.Done()\<close>; since time is not
  modelled it may fire at any moment once the context exists. No event happens after a
  panic or after \<open>main\<close> has ended the process.
\<close>

datatype event = Step proc | Handoff proc proc | Deadline

definition halted :: "state \<Rightarrow> bool" where
  "halted s \<longleftrightarrow> panicked s \<or> main_pc s = M_Exited"

definition step_chan :: "proc \<Rightarrow> state \<Rightarrow> state option" where
  "step_chan p s =
     (case sending p s of
        Some (c, v) \<Rightarrow>
          (case chans s c of
             None \<Rightarrow> None
           | Some ch \<Rightarrow>
               if ch_closed ch then Some (panic s)
               else if length (ch_buf ch) < ch_cap ch then
                 Some (sent p (log (Sent p c v)
                   (s\<lparr>chans := (chans s)(c \<mapsto> ch\<lparr>ch_buf := ch_buf ch @ [v]\<rparr>)\<rparr>)))
               else None)
      | None \<Rightarrow>
          (case receiving p s of
             Some c \<Rightarrow>
               (case chans s c of
                  None \<Rightarrow> None
                | Some ch \<Rightarrow>
                    (case ch_buf ch of
                       v # vs \<Rightarrow>
                         Some (received p v True (log (Received p c v)
                           (s\<lparr>chans := (chans s)(c \<mapsto> ch\<lparr>ch_buf := vs\<rparr>)\<rparr>)))
                     | [] \<Rightarrow>
                         if ch_closed ch
                         then Some (received p 0 False (log (Saw_Closed p c) s))
                         else None))
           | None \<Rightarrow> step_local p s))"

definition handoff :: "proc \<Rightarrow> proc \<Rightarrow> state \<Rightarrow> state option" where
  "handoff p q s =
     (case sending p s of
        None \<Rightarrow> None
      | Some (c, v) \<Rightarrow>
          (case chans s c of
             None \<Rightarrow> None
           | Some ch \<Rightarrow>
               if receiving q s = Some c \<and> ch_cap ch = 0 \<and> \<not> ch_closed ch
               then Some (received q v True (sent p (log (Received q c v) (log (Sent p c v) s))))
               else None))"

fun exec :: "event \<Rightarrow> state \<Rightarrow> state option" where
  "exec (Step p) s = (if halted s then None else step_chan p s)"
| "exec (Handoff p q) s = (if halted s then None else handoff p q s)"
| "exec Deadline s =
     (if halted s then None
      else if ctx_done s = Some False then Some (s\<lparr>ctx_done := Some True\<rparr>) else None)"

fun run :: "event list \<Rightarrow> state \<Rightarrow> state option" where
  "run [] s = Some s"
| "run (e # es) s = (case exec e s of None \<Rightarrow> None | Some s' \<Rightarrow> run es s')"

inductive reachable :: "state \<Rightarrow> bool" where
  start: "reachable init"
| step: "reachable s \<Longrightarrow> exec e s = Some s' \<Longrightarrow> reachable s'"

subsection \<open>Invariants of the wiring\<close>

text \<open>
  How far \<open>main\<close> has got decides which channels and goroutines exist. \<open>wired\<close> says
  that every goroutine holds the channels the \<open>go\<close> statements gave it, that every
  channel has the capacity \<open>make\<close> gave it and no more buffered values than that, and
  that the channels, the context and the goroutines exist from the statement of \<open>main\<close>
  on that makes them.
\<close>
fun phase :: "mpc \<Rightarrow> nat" where
  "phase M_Make_ChIn = 0"
| "phase M_With_Timeout = 1"
| "phase M_Go_Generator = 2"
| "phase (M_Workers i) = 3"
| "phase M_Setup = 4"
| "phase (M_Collectors i) = 5"
| "phase M_Go_Barrier = 6"
| "phase M_Range = 7"
| "phase M_Report = 8"
| "phase M_Exited = 9"

fun started_workers :: "mpc \<Rightarrow> nat" where
  "started_workers M_Make_ChIn = 0"
| "started_workers M_With_Timeout = 0"
| "started_workers M_Go_Generator = 0"
| "started_workers (M_Workers i) = i"
| "started_workers pc = NumOut"

fun started_collectors :: "mpc \<Rightarrow> nat" where
  "started_collectors (M_Collectors i) = i"
| "started_collectors M_Go_Barrier = NumOut"
| "started_collectors M_Range = NumOut"
| "started_collectors M_Report = NumOut"
| "started_collectors M_Exited = NumOut"
| "started_collectors pc = 0"

fun cap_of :: "chan_id \<Rightarrow> nat" where
  "cap_of ChIn = 0"
| "cap_of (Outs j) = 0"
| "cap_of ChOut = NumOut"

definition made :: "mpc \<Rightarrow> chan_id set" where
  "made pc = (if 1 \<le> phase pc then {ChIn} else {}) \<union> Outs ` {..<started_workers pc} \<union>
     (if 5 \<le> phase pc then {ChOut} else {})"

definition shape_ok :: "state \<Rightarrow> bool" where
  "shape_ok s \<longleftrightarrow>
     length (workers s) = started_workers (main_pc s) \<and>
     length (collectors s) = started_collectors (main_pc s) \<and>
     started_workers (main_pc s) \<le> NumOut \<and>
     started_collectors (main_pc s) \<le> NumOut \<and>
     length (amounts s) = (if 5 \<le> phase (main_pc s) then NumOut else 0)"

definition wires_ok :: "state \<Rightarrow> bool" where
  "wires_ok s \<longleftrightarrow>
     map (\<lambda>w. (w_in w, w_out w)) (workers s) =
       map (\<lambda>j. (ChIn, Outs j)) [0..<length (workers s)] \<and>
     map (\<lambda>c. (c_in c, c_c c, c_i c)) (collectors s) =
       map (\<lambda>k. (Outs k, Outs k, k)) [0..<length (collectors s)] \<and>
     (\<forall>g. gen s = Some g \<longrightarrow> g_ch g = ChIn)"

definition caps_ok :: "state \<Rightarrow> bool" where
  "caps_ok s \<longleftrightarrow>
     (\<forall>c ch. chans s c = Some ch \<longrightarrow> ch_cap ch = cap_of c \<and> length (ch_buf ch) \<le> cap_of c)"

definition made_ok :: "state \<Rightarrow> bool" where
  "made_ok s \<longleftrightarrow>
     dom (chans s) = made (main_pc s) \<and>
     (ctx_done s \<noteq> None \<longleftrightarrow> 2 \<le> phase (main_pc s)) \<and>
     (gen s \<noteq> None \<longleftrightarrow> 3 \<le> phase (main_pc s)) \<and>
     (waiter s \<noteq> None \<longleftrightarrow> 7 \<le> phase (main_pc s))"

definition wired :: "state \<Rightarrow> bool" where
  "wired s \<longleftrightarrow> shape_ok s \<and> wires_ok s \<and> caps_ok s \<and> made_ok s"

subsection \<open>Invariants of the shutdown\<close>

text \<open>
  Closing goes downstream: \<open>chIn\<close> is closed exactly when the generator has returned; a
  worker leaves its loop only when \<open>chIn\<close> is closed, and \<open>outs[j]\<close> is closed exactly when
  worker \<open>j\<close> has returned; a collector leaves its loop only when its channel is closed;
  the wait group counts the collectors that have not returned; \<open>chOut\<close> is closed exactly
  when the waiting goroutine has returned, and \<open>main\<close> leaves its loop only when \<open>chOut\<close> is
  closed and empty.
\<close>

definition chan_closed :: "state \<Rightarrow> chan_id \<Rightarrow> bool" where
  "chan_closed s c = (case chans s c of None \<Rightarrow> False | Some ch \<Rightarrow> ch_closed ch)"

definition chan_buf :: "state \<Rightarrow> chan_id \<Rightarrow> int64 list" where
  "chan_buf s c = (case chans s c of None \<Rightarrow> [] | Some ch \<Rightarrow> ch_buf ch)"

definition done_collectors :: "state \<Rightarrow> nat" where
  "done_collectors s = length (filter (\<lambda>c. c_pc c = C_Done) (collectors s))"

definition gen_closes :: "state \<Rightarrow> bool" where
  "gen_closes s \<longleftrightarrow>
     (case gen s of
        None \<Rightarrow> \<not> chan_closed s ChIn
      | Some g \<Rightarrow> chan_closed s ChIn \<longleftrightarrow> g_pc g = G_Done)"

definition workers_close :: "state \<Rightarrow> bool" where
  "workers_close s \<longleftrightarrow>
     (\<forall>j < length (workers s).
        (w_pc (workers s ! j) = W_Close \<or> w_pc (workers s ! j) = W_Done
           \<longrightarrow> chan_closed s ChIn) \<and>
        (chan_closed s (Outs j) \<longleftrightarrow> w_pc (workers s ! j) = W_Done))"

definition collectors_close :: "state \<Rightarrow> bool" where
  "collectors_close s \<longleftrightarrow>
     (\<forall>k < length (collectors s).
        c_pc (collectors s ! k) = C_Wg_Done \<or> c_pc (collectors s ! k) = C_Done
          \<longrightarrow> chan_closed s (Outs k))"

definition wg_counts :: "state \<Rightarrow> bool" where
  "wg_counts s \<longleftrightarrow>
     wg s = (if 5 \<le> phase (main_pc s) then int NumOut - int (done_collectors s) else 0)"

definition waiter_closes :: "state \<Rightarrow> bool" where
  "waiter_closes s \<longleftrightarrow>
     (waiter s = Some B_Close \<or> waiter s = Some B_Done \<longrightarrow> wg s = 0) \<and>
     (chan_closed s ChOut \<longleftrightarrow> waiter s = Some B_Done)"

definition main_drained :: "state \<Rightarrow> bool" where
  "main_drained s \<longleftrightarrow>
     (main_pc s = M_Report \<or> main_pc s = M_Exited
        \<longrightarrow> chan_closed s ChOut \<and> chan_buf s ChOut = [])"

definition cascade :: "state \<Rightarrow> bool" where
  "cascade s \<longleftrightarrow>
     \<not> panicked s \<and> gen_closes s \<and> workers_close s \<and> collectors_close s \<and> wg_counts s \<and>
     waiter_closes s \<and> main_drained s"

subsection \<open>Invariants of the tallies\<close>

text \<open>
  A value that has left the generator is held by a worker or a collector that has received
  it and not yet sent it on, or it is in the buffer of \<open>chOut\<close>, or \<open>main\<close> has counted it.
  The generator's own tallies lag behind between its send and the two additions of \<open>fn\<close>.
\<close>

fun w_cnt :: "wpc \<Rightarrow> int64" where
  "w_cnt (W_Send v) = 1"
| "w_cnt pc = 0"

fun w_val :: "wpc \<Rightarrow> int64" where
  "w_val (W_Send v) = v"
| "w_val pc = 0"

fun c_cnt :: "cpc \<Rightarrow> int64" where
  "c_cnt (C_Send v) = 1"
| "c_cnt pc = 0"

fun c_val :: "cpc \<Rightarrow> int64" where
  "c_val (C_Send v) = v"
| "c_val pc = 0"

fun c_inc :: "cpc \<Rightarrow> int64" where
  "c_inc C_Incr = 1"
| "c_inc pc = 0"

definition g_cnt :: "generator option \<Rightarrow> int64" where
  "g_cnt go =
     (case go of
        None \<Rightarrow> 0
      | Some g \<Rightarrow> if g_pc g = G_Fn_Sum \<or> g_pc g = G_Fn_Count then 1 else 0)"

definition g_val :: "generator option \<Rightarrow> int64" where
  "g_val go =
     (case go of None \<Rightarrow> 0 | Some g \<Rightarrow> if g_pc g = G_Fn_Sum then g_current g else 0)"

definition held_count :: "state \<Rightarrow> int64" where
  "held_count s =
     (\<Sum>w\<leftarrow>workers s. w_cnt (w_pc w)) + (\<Sum>c\<leftarrow>collectors s. c_cnt (c_pc c)) +
     of_nat (length (chan_buf s ChOut))"

definition held_sum :: "state \<Rightarrow> int64" where
  "held_sum s =
     (\<Sum>w\<leftarrow>workers s. w_val (w_pc w)) + (\<Sum>c\<leftarrow>collectors s. c_val (c_pc c)) +
     sum_list (chan_buf s ChOut)"

definition tally_count :: "state \<Rightarrow> bool" where
  "tally_count s \<longleftrightarrow>
     (main_pc s \<noteq> M_Exited \<longrightarrow> inputCount s = count_m s + held_count s - g_cnt (gen s))"

definition tally_sum :: "state \<Rightarrow> bool" where
  "tally_sum s \<longleftrightarrow> inputSum s = sum_m s + held_sum s - g_val (gen s)"

definition tally_amounts :: "state \<Rightarrow> bool" where
  "tally_amounts s \<longleftrightarrow>
     count_m s =
       sum_list (amounts s) + (\<Sum>c\<leftarrow>collectors s. c_inc (c_pc c)) -
       of_nat (length (chan_buf s ChOut))"

subsection \<open>What the record of a run says\<close>

text \<open>
  Readings of the record \<open>hist\<close>: which goroutine may send on, receive from or close which
  channel; how often a channel was closed and whether anything was sent on it or closed
  after that; the values sent on a channel, the values a goroutine received from a
  channel, the values \<open>fn\<close> was called with, the durations a worker slept. The invariants
  relate these lists to the program counters and variables.
\<close>

fun may_send :: "proc \<Rightarrow> chan_id \<Rightarrow> bool" where
  "may_send P_Generator c = (c = ChIn)"
| "may_send (P_Worker j) c = (j < NumOut \<and> c = Outs j)"
| "may_send (P_Collector k) c = (k < NumOut \<and> c = ChOut)"
| "may_send p c = False"

fun may_receive :: "proc \<Rightarrow> chan_id \<Rightarrow> bool" where
  "may_receive (P_Worker j) c = (j < NumOut \<and> c = ChIn)"
| "may_receive (P_Collector k) c = (k < NumOut \<and> c = Outs k)"
| "may_receive P_Main c = (c = ChOut)"
| "may_receive p c = False"

fun may_close :: "proc \<Rightarrow> chan_id \<Rightarrow> bool" where
  "may_close P_Generator c = (c = ChIn)"
| "may_close (P_Worker j) c = (j < NumOut \<and> c = Outs j)"
| "may_close P_Barrier c = (c = ChOut)"
| "may_close p c = False"

fun permitted :: "action \<Rightarrow> bool" where
  "permitted (Sent p c v) = may_send p c"
| "permitted (Received p c v) = may_receive p c"
| "permitted (Saw_Closed p c) = may_receive p c"
| "permitted (Closed p c) = may_close p c"
| "permitted (Called_Fn v) = True"
| "permitted (Slept j d) = (j < NumOut)"

fun is_close :: "chan_id \<Rightarrow> action \<Rightarrow> bool" where
  "is_close c (Closed p c') = (c' = c)"
| "is_close c a = False"

definition closes :: "chan_id \<Rightarrow> action list \<Rightarrow> nat" where
  "closes c h = length (filter (is_close c) h)"

definition closes_once :: "state \<Rightarrow> bool" where
  "closes_once s \<longleftrightarrow> (\<forall>c. closes c (hist s) = (if chan_closed s c then 1 else 0))"

fun through :: "chan_id \<Rightarrow> action \<Rightarrow> int64 list" where
  "through c (Sent p c' v) = (if c' = c then [v] else [])"
| "through c a = []"

definition passed :: "chan_id \<Rightarrow> action list \<Rightarrow> int64 list" where
  "passed c h = concat (map (through c) h)"

fun uses_open :: "chan_id \<Rightarrow> action \<Rightarrow> bool" where
  "uses_open c (Sent p c' v) = (c' = c)"
| "uses_open c (Closed p c') = (c' = c)"
| "uses_open c a = False"

fun quiet :: "action list \<Rightarrow> bool" where
  "quiet [] = True"
| "quiet (a # h) = ((\<forall>c. is_close c a \<longrightarrow> (\<forall>b\<in>set h. \<not> uses_open c b)) \<and> quiet h)"

fun got_of :: "proc \<Rightarrow> chan_id \<Rightarrow> action \<Rightarrow> int64 list" where
  "got_of p c (Received p' c' v) = (if p' = p \<and> c' = c then [v] else [])"
| "got_of p c a = []"

definition taken :: "proc \<Rightarrow> chan_id \<Rightarrow> action list \<Rightarrow> int64 list" where
  "taken p c h = concat (map (got_of p c) h)"

definition lanes_count :: "state \<Rightarrow> bool" where
  "lanes_count s \<longleftrightarrow>
     (\<forall>k. if k < length (collectors s)
          then of_nat (length (passed (Outs k) (hist s))) =
            amounts s ! k + c_cnt (c_pc (collectors s ! k)) + c_inc (c_pc (collectors s ! k))
          else passed (Outs k) (hist s) = [] \<and> (k < length (amounts s) \<longrightarrow> amounts s ! k = 0)) \<and>
     (\<forall>k. taken (P_Collector k) (Outs k) (hist s) = passed (Outs k) (hist s))"

fun call_of :: "action \<Rightarrow> int64 list" where
  "call_of (Called_Fn v) = [v]"
| "call_of a = []"

definition calls :: "action list \<Rightarrow> int64 list" where
  "calls h = concat (map call_of h)"

fun nap_of :: "nat \<Rightarrow> action \<Rightarrow> int64 list" where
  "nap_of j (Slept j' d) = (if j' = j then [d] else [])"
| "nap_of j a = []"

definition naps :: "nat \<Rightarrow> action list \<Rightarrow> int64 list" where
  "naps j h = concat (map (nap_of j) h)"

definition triangle :: "nat \<Rightarrow> nat" where
  "triangle n = n * (n + 1) div 2"

definition gen_conforms :: "state \<Rightarrow> bool" where
  "gen_conforms s \<longleftrightarrow>
     (case gen s of
        None \<Rightarrow>
          calls (hist s) = [] \<and> passed ChIn (hist s) = [] \<and> inputSum s = 0 \<and> inputCount s = 0
      | Some g \<Rightarrow>
          calls (hist s) = map of_nat [1..<Suc (length (calls (hist s)))] \<and>
          passed ChIn (hist s) =
            calls (hist s) @ (if g_pc g = G_Fn_Sum then [g_current g] else []) \<and>
          g_current g =
            (if g_pc g = G_Fn_Count \<or> g_pc g = G_Incr then of_nat (length (calls (hist s)))
             else of_nat (Suc (length (calls (hist s))))) \<and>
          inputSum s = of_nat (triangle (length (calls (hist s)))) \<and>
          (main_pc s \<noteq> M_Exited \<longrightarrow>
             inputCount s + (if g_pc g = G_Fn_Count then 1 else 0) =
               of_nat (length (calls (hist s)))))"

definition wpc_at :: "state \<Rightarrow> nat \<Rightarrow> wpc" where
  "wpc_at s j = (if j < length (workers s) then w_pc (workers s ! j) else W_Recv)"

definition worker_conforms :: "state \<Rightarrow> bool" where
  "worker_conforms s \<longleftrightarrow>
     (\<forall>j. taken (P_Worker j) ChIn (hist s) =
        passed (Outs j) (hist s) @ (case wpc_at s j of W_Send v \<Rightarrow> [v] | _ \<Rightarrow> [])) \<and>
     (\<forall>j. length (passed (Outs j) (hist s)) =
        length (naps j (hist s)) + (if wpc_at s j = W_Sleep then 1 else 0)) \<and>
     (\<forall>j. \<forall>d\<in>set (naps j (hist s)). d = Millisecond) \<and>
     (\<forall>j. Saw_Closed (P_Worker j) ChIn \<in> set (hist s) \<longleftrightarrow>
        wpc_at s j = W_Close \<or> wpc_at s j = W_Done) \<and>
     (\<forall>j. Closed (P_Worker j) (Outs j) \<in> set (hist s) \<longleftrightarrow> wpc_at s j = W_Done)"

definition chOut_fifo :: "state \<Rightarrow> bool" where
  "chOut_fifo s \<longleftrightarrow> taken P_Main ChOut (hist s) @ chan_buf s ChOut = passed ChOut (hist s)"

subsection \<open>A run with one value\<close>

text \<open>
  \<open>main\<close> starts everything; the generator sends 1 to worker 2, which hands it to its
  collector, which puts it into \<open>chOut\<close>, where \<open>main\<close> takes it; the deadline fires, the
  generator closes \<open>chIn\<close>, the workers, the collectors and the waiting goroutine return,
  and \<open>main\<close> leaves its loop.
\<close>

definition one_item :: "event list" where
  "one_item =
     replicate 17 (Step P_Main) @
     [Step P_Generator, Handoff P_Generator (P_Worker 2), Step P_Generator, Step P_Generator,
      Step P_Generator, Handoff (P_Worker 2) (P_Collector 2), Step (P_Collector 2),
      Step (P_Collector 2), Step P_Main, Step (P_Worker 2), Deadline, Step P_Generator,
      Step P_Generator] @
     concat (map (\<lambda>j. [Step (P_Worker j), Step (P_Worker j)]) [0..<5]) @
     concat (map (\<lambda>k. [Step (P_Collector k), Step (P_Collector k)]) [0..<5]) @
     [Step P_Barrier, Step P_Barrier, Step P_Main]"

text \<open>
  A run with three values: each of the values 1, 2 and 3 goes through a lane of its own
  (lanes 0, 2 and 4); \<open>main\<close> takes the first value while the third is still on its way
  and the other two after \<open>chOut\<close> is closed.
\<close>

definition through_lane :: "nat \<Rightarrow> event list" where
  "through_lane j =
     [Step P_Generator, Handoff P_Generator (P_Worker j), Step P_Generator, Step P_Generator,
      Step P_Generator, Handoff (P_Worker j) (P_Collector j), Step (P_Collector j),
      Step (P_Collector j), Step (P_Worker j)]"

definition shutdown :: "event list" where
  "shutdown =
     [Deadline, Step P_Generator, Step P_Generator] @
     concat (map (\<lambda>j. [Step (P_Worker j), Step (P_Worker j)]) [0..<5]) @
     concat (map (\<lambda>k. [Step (P_Collector k), Step (P_Collector k)]) [0..<5]) @
     [Step P_Barrier, Step P_Barrier]"

definition three_items :: "event list" where
  "three_items =
     replicate 17 (Step P_Main) @ through_lane 0 @ through_lane 2 @ [Step P_Main] @
     through_lane 4 @ shutdown @ [Step P_Main, Step P_Main, Step P_Main]"

text \<open>
  A run that fills \<open>chOut\<close>: five values go through the five lanes while \<open>main\<close> takes
  none, and a sixth value reaches collector 0.
\<close>

definition six_items :: "event list" where
  "six_items =
     replicate 17 (Step P_Main) @ concat (map through_lane [0..<5]) @
     [Step P_Generator, Handoff P_Generator (P_Worker 0), Step P_Generator, Step P_Generator,
      Step P_Generator, Handoff (P_Worker 0) (P_Collector 0)]"

section \<open>The transitions\<close>

lemma subtract_all_sum_list: "subtract_all c vs = c - sum_list vs"
  by (induction vs arbitrary: c) (simp_all add: algebra_simps)


lemma exec_cases [consumes 1, case_names Deadline Local Send_Closed Send_Buf Recv_Buf Recv_Closed Handoff]:
  assumes "exec e s = Some s'"
  obtains
    (Deadline) "e = Deadline" "ctx_done s = Some False" "s' = s\<lparr>ctx_done := Some True\<rparr>"
  | (Local) p where "e = Step p" "sending p s = None" "receiving p s = None"
      "step_local p s = Some s'"
  | (Send_Closed) p c v ch where "e = Step p" "sending p s = Some (c, v)"
      "chans s c = Some ch" "ch_closed ch" "s' = panic s"
  | (Send_Buf) p c v ch where "e = Step p" "sending p s = Some (c, v)"
      "chans s c = Some ch" "\<not> ch_closed ch" "length (ch_buf ch) < ch_cap ch"
      "s' = sent p (log (Sent p c v) (s\<lparr>chans := (chans s)(c \<mapsto> ch\<lparr>ch_buf := ch_buf ch @ [v]\<rparr>)\<rparr>))"
  | (Recv_Buf) p c v vs ch where "e = Step p" "sending p s = None" "receiving p s = Some c"
      "chans s c = Some ch" "ch_buf ch = v # vs"
      "s' = received p v True (log (Received p c v) (s\<lparr>chans := (chans s)(c \<mapsto> ch\<lparr>ch_buf := vs\<rparr>)\<rparr>))"
  | (Recv_Closed) p c ch where "e = Step p" "sending p s = None" "receiving p s = Some c"
      "chans s c = Some ch" "ch_buf ch = []" "ch_closed ch"
      "s' = received p 0 False (log (Saw_Closed p c) s)"
  | (Handoff) p q c v ch where "e = Handoff p q" "sending p s = Some (c, v)"
      "receiving q s = Some c" "chans s c = Some ch" "ch_cap ch = 0" "\<not> ch_closed ch"
      "s' = received q v True (sent p (log (Received q c v) (log (Sent p c v) s)))"
proof (cases e)
  case (Step p)
  with assms have sc: "step_chan p s = Some s'" by (simp split: if_splits)
  show ?thesis
  proof (cases "sending p s")
    case None
    note snd = this
    show ?thesis
    proof (cases "receiving p s")
      case None
      with snd sc Step show ?thesis by (intro Local) (simp_all add: step_chan_def)
    next
      case (Some c)
      with snd sc obtain ch where ch: "chans s c = Some ch"
        by (auto simp: step_chan_def split: option.splits)
      show ?thesis
      proof (cases "ch_buf ch")
        case Nil
        with snd Some sc ch Step show ?thesis
          by (intro Recv_Closed[of p c ch]) (simp_all add: step_chan_def split: if_splits)
      next
        case (Cons v vs)
        with snd Some sc ch Step show ?thesis
          by (intro Recv_Buf[of p c ch v vs]) (simp_all add: step_chan_def)
      qed
    qed
  next
    case (Some cv)
    obtain c v where cv: "cv = (c, v)" by (cases cv)
    with Some sc obtain ch where ch: "chans s c = Some ch"
      by (auto simp: step_chan_def split: option.splits)
    show ?thesis
    proof (cases "ch_closed ch")
      case True
      with Some cv sc ch Step show ?thesis
        by (intro Send_Closed[of p c v ch]) (simp_all add: step_chan_def)
    next
      case False
      with Some cv sc ch Step show ?thesis
        by (intro Send_Buf[of p c v ch]) (simp_all add: step_chan_def split: if_splits)
    qed
  qed
next
  case (Handoff p q)
  with assms have h: "handoff p q s = Some s'" by (simp split: if_splits)
  then obtain c v where cv: "sending p s = Some (c, v)"
    by (auto simp: handoff_def split: option.splits)
  with h obtain ch where ch: "chans s c = Some ch"
    by (auto simp: handoff_def split: option.splits)
  with h cv Handoff show ?thesis
    by (intro that(7)[of p q c v ch]) (simp_all add: handoff_def split: if_splits)
next
  case Deadline
  with assms show ?thesis by (intro that(1)) (simp_all split: if_splits)
qed

lemma main_cases [consumes 1, case_names Make_ChIn With_Timeout Go_Generator Go_Worker
    Workers_Done Setup Go_Collector Collectors_Done Go_Barrier Report]:
  assumes "main s = Some s'"
  obtains
    (Make_ChIn) "main_pc s = M_Make_ChIn"
      "s' = s\<lparr>chans := (chans s)(ChIn \<mapsto> make_chan 0), main_pc := M_With_Timeout\<rparr>"
  | (With_Timeout) "main_pc s = M_With_Timeout"
      "s' = s\<lparr>ctx_done := Some False, main_pc := M_Go_Generator\<rparr>"
  | (Go_Generator) "main_pc s = M_Go_Generator"
      "s' = s\<lparr>gen := Some \<lparr>g_pc = G_Select, g_ch = ChIn, g_current = 1\<rparr>,
              main_pc := M_Workers 0\<rparr>"
  | (Go_Worker) i where "main_pc s = M_Workers i" "i < NumOut"
      "s' = s\<lparr>chans := (chans s)(Outs i \<mapsto> make_chan 0),
              workers := workers s @ [\<lparr>w_pc = W_Recv, w_in = ChIn, w_out = Outs i\<rparr>],
              main_pc := M_Workers (i + 1)\<rparr>"
  | (Workers_Done) i where "main_pc s = M_Workers i" "\<not> i < NumOut"
      "s' = s\<lparr>main_pc := M_Setup\<rparr>"
  | (Setup) "main_pc s = M_Setup"
      "s' = s\<lparr>amounts := replicate NumOut 0,
              chans := (chans s)(ChOut \<mapsto> make_chan NumOut),
              wg := wg s + int NumOut,
              main_pc := M_Collectors 0\<rparr>"
  | (Go_Collector) i where "main_pc s = M_Collectors i" "i < NumOut"
      "s' = s\<lparr>collectors := collectors s @
                [\<lparr>c_pc = C_Recv, c_in = Outs i, c_c = Outs i, c_i = i\<rparr>],
              main_pc := M_Collectors (i + 1)\<rparr>"
  | (Collectors_Done) i where "main_pc s = M_Collectors i" "\<not> i < NumOut"
      "s' = s\<lparr>main_pc := M_Go_Barrier\<rparr>"
  | (Go_Barrier) "main_pc s = M_Go_Barrier"
      "s' = s\<lparr>waiter := Some B_Wait, main_pc := M_Range\<rparr>"
  | (Report) "main_pc s = M_Report"
      "s' = s\<lparr>stdout := [Counts (inputCount s) (count_m s), Sums (inputSum s) (sum_m s),
                          Split (amounts s)],
              inputCount :=
                snd (check_results (inputSum s) (sum_m s) (inputCount s) (count_m s) (amounts s)),
              result :=
                Some (fst (check_results (inputSum s) (sum_m s) (inputCount s) (count_m s)
                  (amounts s))),
              ctx_done :=
                (if fst (check_results (inputSum s) (sum_m s) (inputCount s) (count_m s)
                  (amounts s)) = Returned then Some True else ctx_done s),
              main_pc := M_Exited\<rparr>"
proof (cases "main_pc s")
  case M_Make_ChIn
  with assms show ?thesis by (intro Make_ChIn) (simp_all add: main_def)
next
  case M_With_Timeout
  with assms show ?thesis by (intro With_Timeout) (simp_all add: main_def)
next
  case M_Go_Generator
  with assms show ?thesis by (intro Go_Generator) (simp_all add: main_def)
next
  case (M_Workers i)
  show ?thesis
  proof (cases "i < NumOut")
    case True
    with M_Workers assms show ?thesis by (intro Go_Worker[of i]) (simp_all add: main_def)
  next
    case False
    with M_Workers assms show ?thesis by (intro Workers_Done[of i]) (simp_all add: main_def)
  qed
next
  case M_Setup
  with assms show ?thesis by (intro Setup) (simp_all add: main_def)
next
  case (M_Collectors i)
  show ?thesis
  proof (cases "i < NumOut")
    case True
    with M_Collectors assms show ?thesis
      by (intro Go_Collector[of i]) (simp_all add: main_def)
  next
    case False
    with M_Collectors assms show ?thesis
      by (intro Collectors_Done[of i]) (simp_all add: main_def)
  qed
next
  case M_Go_Barrier
  with assms show ?thesis by (intro Go_Barrier) (simp_all add: main_def)
next
  case M_Range
  with assms show ?thesis by (simp add: main_def)
next
  case M_Report
  with assms show ?thesis by (intro Report) (simp_all add: main_def Let_def)
next
  case M_Exited
  with assms show ?thesis by (simp add: main_def)
qed

lemma Generator_cases [consumes 1, case_names Select Fn_Sum Fn_Count Incr Close]:
  assumes "Generator s = Some s'"
  obtains
    (Select) g where "gen s = Some g" "g_pc g = G_Select"
      "s' = set_gpc (if ctx_done s = Some True then G_Close else G_Send) s"
  | (Fn_Sum) g where "gen s = Some g" "g_pc g = G_Fn_Sum"
      "s' = set_gpc G_Fn_Count
         (log (Called_Fn (g_current g)) (s\<lparr>inputSum := inputSum s + g_current g\<rparr>))"
  | (Fn_Count) g where "gen s = Some g" "g_pc g = G_Fn_Count"
      "s' = set_gpc G_Incr (s\<lparr>inputCount := inputCount s + 1\<rparr>)"
  | (Incr) g where "gen s = Some g" "g_pc g = G_Incr"
      "s' = s\<lparr>gen := Some (g\<lparr>g_current := g_current g + 1, g_pc := G_Select\<rparr>)\<rparr>"
  | (Close) g where "gen s = Some g" "g_pc g = G_Close"
      "s' = close_chan P_Generator (g_ch g) (set_gpc G_Done s)"
proof (cases "gen s")
  case None
  with assms show ?thesis by (simp add: Generator_def)
next
  case (Some g)
  show ?thesis
  proof (cases "g_pc g")
    case G_Select
    with Some assms show ?thesis by (intro Select[of g]) (simp_all add: Generator_def)
  next
    case G_Send
    with Some assms show ?thesis by (simp add: Generator_def)
  next
    case G_Fn_Sum
    with Some assms show ?thesis by (intro Fn_Sum[of g]) (simp_all add: Generator_def)
  next
    case G_Fn_Count
    with Some assms show ?thesis by (intro Fn_Count[of g]) (simp_all add: Generator_def)
  next
    case G_Incr
    with Some assms show ?thesis by (intro Incr[of g]) (simp_all add: Generator_def)
  next
    case G_Close
    with Some assms show ?thesis by (intro Close[of g]) (simp_all add: Generator_def)
  next
    case G_Done
    with Some assms show ?thesis by (simp add: Generator_def)
  qed
qed

lemma Worker_cases [consumes 1, case_names Sleep Close]:
  assumes "Worker j s = Some s'"
  obtains
    (Sleep) "j < length (workers s)" "w_pc (workers s ! j) = W_Sleep"
      "s' = set_wpc j W_Recv (log (Slept j Millisecond) s)"
  | (Close) "j < length (workers s)" "w_pc (workers s ! j) = W_Close"
      "s' = close_chan (P_Worker j) (w_out (workers s ! j)) (set_wpc j W_Done s)"
proof -
  from assms have j: "j < length (workers s)"
    by (simp add: Worker_def split: if_splits)
  show ?thesis
  proof (cases "w_pc (workers s ! j)")
    case W_Sleep
    with j assms show ?thesis by (intro Sleep) (simp_all add: Worker_def)
  next
    case W_Close
    with j assms show ?thesis by (intro Close) (simp_all add: Worker_def)
  qed (use j assms in \<open>simp_all add: Worker_def\<close>)
qed

lemma collect_cases [consumes 1, case_names Incr Incr_Panic Wg_Done Wg_Done_Panic]:
  assumes "collect k s = Some s'"
  obtains
    (Incr) "k < length (collectors s)" "c_pc (collectors s ! k) = C_Incr"
      "c_i (collectors s ! k) < length (amounts s)"
      "s' = set_cpc k C_Recv (s\<lparr>amounts := (amounts s)[c_i (collectors s ! k) :=
              amounts s ! c_i (collectors s ! k) + 1]\<rparr>)"
  | (Incr_Panic) "k < length (collectors s)" "c_pc (collectors s ! k) = C_Incr"
      "\<not> c_i (collectors s ! k) < length (amounts s)" "s' = panic s"
  | (Wg_Done) "k < length (collectors s)" "c_pc (collectors s ! k) = C_Wg_Done"
      "\<not> wg s - 1 < 0" "s' = set_cpc k C_Done (s\<lparr>wg := wg s - 1\<rparr>)"
  | (Wg_Done_Panic) "k < length (collectors s)" "c_pc (collectors s ! k) = C_Wg_Done"
      "wg s - 1 < 0" "s' = panic s"
proof -
  from assms have k: "k < length (collectors s)"
    by (simp add: collect_def split: if_splits)
  show ?thesis
  proof (cases "c_pc (collectors s ! k)")
    case C_Incr
    show ?thesis
    proof (cases "c_i (collectors s ! k) < length (amounts s)")
      case True
      with C_Incr k assms show ?thesis by (intro Incr) (simp_all add: collect_def Let_def)
    next
      case False
      with C_Incr k assms show ?thesis
        by (intro Incr_Panic) (simp_all add: collect_def Let_def)
    qed
  next
    case C_Wg_Done
    show ?thesis
    proof (cases "wg s - 1 < 0")
      case True
      with C_Wg_Done k assms show ?thesis
        by (intro Wg_Done_Panic) (simp_all add: collect_def)
    next
      case False
      with C_Wg_Done k assms show ?thesis by (intro Wg_Done) (simp_all add: collect_def)
    qed
  qed (use k assms in \<open>simp_all add: collect_def\<close>)
qed

lemma wait_close_cases [consumes 1, case_names Wait Close]:
  assumes "wait_close s = Some s'"
  obtains
    (Wait) "waiter s = Some B_Wait" "wg s = 0" "s' = s\<lparr>waiter := Some B_Close\<rparr>"
  | (Close) "waiter s = Some B_Close"
      "s' = close_chan P_Barrier ChOut (s\<lparr>waiter := Some B_Done\<rparr>)"
proof (cases "waiter s")
  case None
  with assms show ?thesis by (simp add: wait_close_def)
next
  case (Some b)
  show ?thesis
  proof (cases b)
    case B_Wait
    with Some assms show ?thesis
      by (intro Wait) (simp_all add: wait_close_def split: if_splits)
  next
    case B_Close
    with Some assms show ?thesis by (intro Close) (simp_all add: wait_close_def)
  next
    case B_Done
    with Some assms show ?thesis by (simp add: wait_close_def)
  qed
qed

lemmas upd_defs = set_gpc_def set_wpc_def set_cpc_def log_def panic_def

lemma map_update_same: "f x = f (xs ! j) \<Longrightarrow> map f (xs[j := x]) = map f xs"
  by (cases "j < length xs") (simp_all add: map_update list_update_same_conv list_update_beyond)

lemma sending_cases [consumes 1, case_names Generator Worker Collector]:
  assumes "sending p s = Some (c, v)"
  obtains
    (Generator) g where "p = P_Generator" "gen s = Some g" "g_pc g = G_Send"
      "c = g_ch g" "v = g_current g"
  | (Worker) j where "p = P_Worker j" "j < length (workers s)"
      "w_pc (workers s ! j) = W_Send v" "c = w_out (workers s ! j)"
  | (Collector) k where "p = P_Collector k" "k < length (collectors s)"
      "c_pc (collectors s ! k) = C_Send v" "c = ChOut"
proof (cases p)
  case P_Generator
  with assms obtain g where "gen s = Some g" "g_pc g = G_Send" "c = g_ch g" "v = g_current g"
    by (auto split: option.splits if_splits)
  with P_Generator show ?thesis by (intro Generator[of g])
next
  case (P_Worker j)
  with assms have "j < length (workers s)" "w_pc (workers s ! j) = W_Send v"
    "c = w_out (workers s ! j)"
    by (auto split: if_splits wpc.splits)
  with P_Worker show ?thesis by (intro Worker[of j])
next
  case (P_Collector k)
  with assms have "k < length (collectors s)" "c_pc (collectors s ! k) = C_Send v" "c = ChOut"
    by (auto split: if_splits cpc.splits)
  with P_Collector show ?thesis by (intro Collector[of k])
qed (use assms in simp_all)

lemma receiving_cases [consumes 1, case_names Worker Collector Main]:
  assumes "receiving q s = Some c"
  obtains
    (Worker) j where "q = P_Worker j" "j < length (workers s)"
      "w_pc (workers s ! j) = W_Recv" "c = w_in (workers s ! j)"
  | (Collector) k where "q = P_Collector k" "k < length (collectors s)"
      "c_pc (collectors s ! k) = C_Recv" "c = c_c (collectors s ! k)"
  | (Main) "q = P_Main" "main_pc s = M_Range" "c = ChOut"
proof (cases q)
  case P_Main
  with assms show ?thesis by (intro Main) (simp_all split: if_splits)
next
  case (P_Worker j)
  with assms show ?thesis by (intro Worker[of j]) (simp_all split: if_splits)
next
  case (P_Collector k)
  with assms show ?thesis by (intro Collector[of k]) (simp_all split: if_splits)
qed (use assms in simp_all)

lemma wired_init: "wired init"
  by (simp add: wired_def shape_ok_def wires_ok_def caps_ok_def made_ok_def init_def made_def)

section \<open>The wiring is invariant\<close>
lemma wires_ok_eqI:
  assumes "map (\<lambda>w. (w_in w, w_out w)) (workers t) = map (\<lambda>w. (w_in w, w_out w)) (workers s)"
    and "map (\<lambda>c. (c_in c, c_c c, c_i c)) (collectors t) =
      map (\<lambda>c. (c_in c, c_c c, c_i c)) (collectors s)"
    and "map_option g_ch (gen t) = map_option g_ch (gen s)"
  shows "wires_ok t = wires_ok s"
proof -
  from assms(1) have lw: "length (workers t) = length (workers s)"
    by (rule map_eq_imp_length_eq)
  from assms(2) have lc: "length (collectors t) = length (collectors s)"
    by (rule map_eq_imp_length_eq)
  from assms(3)
  have "(\<forall>g. gen t = Some g \<longrightarrow> g_ch g = ChIn) = (\<forall>g. gen s = Some g \<longrightarrow> g_ch g = ChIn)"
    by (cases "gen t"; cases "gen s") simp_all
  with assms(1,2) lw lc show ?thesis by (simp add: wires_ok_def)
qed

lemma wired_log [simp]: "wired (log a s) = wired s"
proof -
  have "shape_ok (log a s) = shape_ok s" by (simp add: shape_ok_def log_def)
  moreover have "wires_ok (log a s) = wires_ok s" by (rule wires_ok_eqI) (simp_all add: log_def)
  moreover have "caps_ok (log a s) = caps_ok s" by (simp add: caps_ok_def log_def)
  moreover have "made_ok (log a s) = made_ok s" by (simp add: made_ok_def log_def)
  ultimately show ?thesis by (simp add: wired_def)
qed

lemma wired_panic [simp]: "wired (panic s) = wired s"
proof -
  have "shape_ok (panic s) = shape_ok s" by (simp add: shape_ok_def panic_def)
  moreover have "wires_ok (panic s) = wires_ok s"
    by (rule wires_ok_eqI) (simp_all add: panic_def)
  moreover have "caps_ok (panic s) = caps_ok s" by (simp add: caps_ok_def panic_def)
  moreover have "made_ok (panic s) = made_ok s" by (simp add: made_ok_def panic_def)
  ultimately show ?thesis by (simp add: wired_def)
qed

lemma wired_set_gpc [simp]: "wired (set_gpc pc s) = wired s"
proof -
  have "shape_ok (set_gpc pc s) = shape_ok s" by (simp add: shape_ok_def set_gpc_def)
  moreover have "wires_ok (set_gpc pc s) = wires_ok s"
    by (rule wires_ok_eqI) (simp_all add: set_gpc_def option.map_comp comp_def)
  moreover have "caps_ok (set_gpc pc s) = caps_ok s" by (simp add: caps_ok_def set_gpc_def)
  moreover have "made_ok (set_gpc pc s) = made_ok s" by (simp add: made_ok_def set_gpc_def)
  ultimately show ?thesis by (simp add: wired_def)
qed

lemma wired_set_wpc [simp]: "wired (set_wpc j pc s) = wired s"
proof -
  have "shape_ok (set_wpc j pc s) = shape_ok s" by (simp add: shape_ok_def set_wpc_def)
  moreover have "wires_ok (set_wpc j pc s) = wires_ok s"
    by (rule wires_ok_eqI) (simp_all add: set_wpc_def map_update_same)
  moreover have "caps_ok (set_wpc j pc s) = caps_ok s" by (simp add: caps_ok_def set_wpc_def)
  moreover have "made_ok (set_wpc j pc s) = made_ok s" by (simp add: made_ok_def set_wpc_def)
  ultimately show ?thesis by (simp add: wired_def)
qed

lemma wired_set_cpc [simp]: "wired (set_cpc k pc s) = wired s"
proof -
  have "shape_ok (set_cpc k pc s) = shape_ok s" by (simp add: shape_ok_def set_cpc_def)
  moreover have "wires_ok (set_cpc k pc s) = wires_ok s"
    by (rule wires_ok_eqI) (simp_all add: set_cpc_def map_update_same)
  moreover have "caps_ok (set_cpc k pc s) = caps_ok s" by (simp add: caps_ok_def set_cpc_def)
  moreover have "made_ok (set_cpc k pc s) = made_ok s" by (simp add: made_ok_def set_cpc_def)
  ultimately show ?thesis by (simp add: wired_def)
qed

lemma wired_sent [simp]: "wired (sent p s) = wired s"
  by (cases p) simp_all

text \<open>Updates of fields the wiring does not mention.\<close>

lemma wired_other [simp]:
  "wired (s\<lparr>inputSum := a\<rparr>) = wired s"
  "wired (s\<lparr>inputCount := a\<rparr>) = wired s"
  "wired (s\<lparr>count_m := a\<rparr>) = wired s"
  "wired (s\<lparr>sum_m := a\<rparr>) = wired s"
  "wired (s\<lparr>wg := n\<rparr>) = wired s"
  "wired (s\<lparr>stdout := ls\<rparr>) = wired s"
  "wired (s\<lparr>result := r\<rparr>) = wired s"
  "wired (s\<lparr>hist := h\<rparr>) = wired s"
  "wired (s\<lparr>panicked := b\<rparr>) = wired s"
  by (simp_all add: wired_def shape_ok_def wires_ok_def caps_ok_def made_ok_def)

lemma wired_buf:
  assumes "wired s" "chans s c = Some ch" "length b \<le> ch_cap ch"
  shows "wired (s\<lparr>chans := (chans s)(c \<mapsto> ch\<lparr>ch_buf := b\<rparr>)\<rparr>)"
proof -
  let ?t = "s\<lparr>chans := (chans s)(c \<mapsto> ch\<lparr>ch_buf := b\<rparr>)\<rparr>"
  from assms(1) have "shape_ok ?t" by (simp add: wired_def shape_ok_def)
  moreover from assms(1) have "wires_ok ?t" by (simp add: wired_def wires_ok_def)
  moreover from assms have "caps_ok ?t" by (auto simp: wired_def caps_ok_def)
  moreover from assms(2) have "dom (chans ?t) = dom (chans s)" by auto
  with assms(1) have "made_ok ?t" by (simp add: wired_def made_ok_def)
  ultimately show ?thesis by (simp add: wired_def)
qed

lemma wired_close_chan [simp]: "wired s \<Longrightarrow> wired (close_chan p c s)"
proof (cases "chans s c")
  case None
  then show "wired s \<Longrightarrow> wired (close_chan p c s)" by (simp add: close_chan_def)
next
  case (Some ch)
  assume w: "wired s"
  let ?t = "s\<lparr>chans := (chans s)(c \<mapsto> ch\<lparr>ch_closed := True\<rparr>)\<rparr>"
  from w have "shape_ok ?t" by (simp add: wired_def shape_ok_def)
  moreover from w have "wires_ok ?t" by (simp add: wired_def wires_ok_def)
  moreover from w Some have "caps_ok ?t" by (auto simp: wired_def caps_ok_def)
  moreover from Some have "dom (chans ?t) = dom (chans s)" by auto
  with w have "made_ok ?t" by (simp add: wired_def made_ok_def)
  ultimately have "wired ?t" by (simp add: wired_def)
  with w Some show "wired (close_chan p c s)" by (simp add: close_chan_def)
qed

lemma wired_received:
  assumes "wired s" "p = P_Main \<longrightarrow> main_pc s = M_Range"
  shows "wired (received p v ok s)"
proof (cases p)
  case P_Main
  with assms(2) have pc: "main_pc s = M_Range" by simp
  let ?t = "s\<lparr>main_pc := M_Report\<rparr>"
  from assms(1) pc have "shape_ok ?t" by (simp add: wired_def shape_ok_def)
  moreover from assms(1) have "wires_ok ?t" by (simp add: wired_def wires_ok_def)
  moreover from assms(1) have "caps_ok ?t" by (simp add: wired_def caps_ok_def)
  moreover from assms(1) pc have "made_ok ?t" by (simp add: wired_def made_ok_def made_def)
  ultimately have "wired ?t" by (simp add: wired_def)
  with assms(1) P_Main show ?thesis by simp
qed (use assms(1) in simp_all)

lemma receiving_main: "receiving q s = Some c \<Longrightarrow> q = P_Main \<longrightarrow> main_pc s = M_Range"
  by (cases q) (simp_all split: if_splits)

lemma main_pc_sent [simp]: "main_pc (sent p s) = main_pc s"
  by (cases p) (simp_all add: upd_defs)

lemma main_pc_log [simp]: "main_pc (log a s) = main_pc s"
  by (simp add: log_def)

lemma chans_log [simp]: "chans (log a s) = chans s"
  by (simp add: log_def)

lemma wired_main:
  assumes "main s = Some s'" "wired s"
  shows "wired s'"
  using assms(1)
proof (cases rule: main_cases)
  case Make_ChIn
  with assms(2) show ?thesis
    by (auto simp: wired_def shape_ok_def wires_ok_def caps_ok_def made_ok_def made_def
        make_chan_def)
next
  case With_Timeout
  with assms(2) show ?thesis
    by (auto simp: wired_def shape_ok_def wires_ok_def caps_ok_def made_ok_def made_def)
next
  case Go_Generator
  with assms(2) show ?thesis
    by (auto simp: wired_def shape_ok_def wires_ok_def caps_ok_def made_ok_def made_def)
next
  case (Go_Worker i)
  from assms(2) Go_Worker(1) have len: "length (workers s) = i"
    by (simp add: wired_def shape_ok_def)
  from assms(2) Go_Worker len have "shape_ok s'" by (simp add: wired_def shape_ok_def)
  moreover from assms(2) Go_Worker len have "wires_ok s'" by (simp add: wired_def wires_ok_def)
  moreover from assms(2) Go_Worker have "caps_ok s'"
    by (auto simp: wired_def caps_ok_def make_chan_def)
  moreover from assms(2) Go_Worker have "made_ok s'"
    by (simp add: wired_def made_ok_def made_def lessThan_Suc)
  ultimately show ?thesis by (simp add: wired_def)
next
  case (Workers_Done i)
  from assms(2) Workers_Done(1,2) have i: "i = NumOut"
    by (simp add: wired_def shape_ok_def)
  with assms(2) Workers_Done show ?thesis
    by (auto simp: wired_def shape_ok_def wires_ok_def caps_ok_def made_ok_def made_def)
next
  case Setup
  from assms(2) Setup have "shape_ok s'" by (simp add: wired_def shape_ok_def)
  moreover from assms(2) Setup have "wires_ok s'" by (simp add: wired_def wires_ok_def)
  moreover from assms(2) Setup have "caps_ok s'"
    by (auto simp: wired_def caps_ok_def make_chan_def)
  moreover from assms(2) Setup have "made_ok s'"
    by (simp add: wired_def made_ok_def made_def)
  ultimately show ?thesis by (simp add: wired_def)
next
  case (Go_Collector i)
  from assms(2) Go_Collector(1) have len: "length (collectors s) = i"
    by (simp add: wired_def shape_ok_def)
  from assms(2) Go_Collector len have "shape_ok s'" by (simp add: wired_def shape_ok_def)
  moreover from assms(2) Go_Collector len have "wires_ok s'"
    by (simp add: wired_def wires_ok_def)
  moreover from assms(2) Go_Collector have "caps_ok s'" by (simp add: wired_def caps_ok_def)
  moreover from assms(2) Go_Collector have "made_ok s'"
    by (simp add: wired_def made_ok_def made_def)
  ultimately show ?thesis by (simp add: wired_def)
next
  case (Collectors_Done i)
  from assms(2) Collectors_Done(1,2) have i: "i = NumOut"
    by (simp add: wired_def shape_ok_def)
  with assms(2) Collectors_Done show ?thesis
    by (auto simp: wired_def shape_ok_def wires_ok_def caps_ok_def made_ok_def made_def)
next
  case Go_Barrier
  with assms(2) show ?thesis
    by (auto simp: wired_def shape_ok_def wires_ok_def caps_ok_def made_ok_def made_def)
next
  case Report
  from assms(2) Report have "shape_ok s'" by (simp add: wired_def shape_ok_def)
  moreover from assms(2) Report have "wires_ok s'" by (simp add: wired_def wires_ok_def)
  moreover from assms(2) Report have "caps_ok s'" by (simp add: wired_def caps_ok_def)
  moreover from assms(2) Report have "made_ok s'"
    by (auto simp: wired_def made_ok_def made_def)
  ultimately show ?thesis by (simp add: wired_def)
qed

lemma wired_Generator:
  assumes "Generator s = Some s'" "wired s"
  shows "wired s'"
  using assms(1)
proof (cases rule: Generator_cases)
  case (Incr g)
  with assms(2) show ?thesis
    by (auto simp: wired_def shape_ok_def wires_ok_def caps_ok_def made_ok_def)
qed (use assms(2) in simp_all)

lemma wired_Worker:
  assumes "Worker j s = Some s'" "wired s"
  shows "wired s'"
  using assms(1) by (cases rule: Worker_cases) (use assms(2) in simp_all)

lemma wired_collect:
  assumes "collect k s = Some s'" "wired s"
  shows "wired s'"
  using assms(1)
proof (cases rule: collect_cases)
  case Incr
  have "wired (s\<lparr>amounts := (amounts s)[c_i (collectors s ! k) :=
              amounts s ! c_i (collectors s ! k) + 1]\<rparr>)"
    using assms(2) by (simp add: wired_def shape_ok_def wires_ok_def caps_ok_def made_ok_def)
  with Incr show ?thesis by simp
qed (use assms(2) in simp_all)

lemma wired_wait_close:
  assumes "wait_close s = Some s'" "wired s"
  shows "wired s'"
  using assms(1)
proof (cases rule: wait_close_cases)
  case Wait
  with assms(2) show ?thesis
    by (simp add: wired_def shape_ok_def wires_ok_def caps_ok_def made_ok_def)
next
  case Close
  from Close(1) assms(2) have "wired (s\<lparr>waiter := Some B_Done\<rparr>)"
    by (simp add: wired_def shape_ok_def wires_ok_def caps_ok_def made_ok_def)
  with Close show ?thesis by simp
qed

lemma wired_exec:
  assumes "exec e s = Some s'" "wired s"
  shows "wired s'"
  using assms(1)
proof (cases rule: exec_cases)
  case Deadline
  with assms(2) show ?thesis
    by (simp add: wired_def shape_ok_def wires_ok_def caps_ok_def made_ok_def)
next
  case (Local p)
  with assms(2) show ?thesis
    by (cases p)
      (simp_all add: wired_main wired_Generator wired_Worker wired_collect wired_wait_close)
next
  case (Send_Closed p c v ch)
  with assms(2) show ?thesis by simp
next
  case (Send_Buf p c v ch)
  with assms(2) have "wired (s\<lparr>chans := (chans s)(c \<mapsto> ch\<lparr>ch_buf := ch_buf ch @ [v]\<rparr>)\<rparr>)"
    by (intro wired_buf) simp_all
  with Send_Buf show ?thesis by simp
next
  case (Recv_Buf p c v vs ch)
  from assms(2) Recv_Buf(4) have "ch_cap ch = cap_of c \<and> length (ch_buf ch) \<le> cap_of c"
    unfolding wired_def caps_ok_def by blast
  with Recv_Buf(5) have "length vs \<le> ch_cap ch" by simp
  with assms(2) Recv_Buf(4)
  have "wired (s\<lparr>chans := (chans s)(c \<mapsto> ch\<lparr>ch_buf := vs\<rparr>)\<rparr>)"
    by (intro wired_buf)
  with Recv_Buf receiving_main[OF Recv_Buf(3)] show ?thesis
    by (simp add: wired_received)
next
  case (Recv_Closed p c ch)
  with assms(2) receiving_main[OF Recv_Closed(3)] show ?thesis
    by (simp add: wired_received)
next
  case (Handoff p q c v ch)
  with assms(2) receiving_main[OF Handoff(3)] show ?thesis
    by (simp add: wired_received)
qed

lemma reachable_wired: "reachable s \<Longrightarrow> wired s"
  by (induction rule: reachable.induct) (simp_all add: wired_init wired_exec)

lemma wired_worker:
  assumes "wired s" "j < length (workers s)"
  shows "w_in (workers s ! j) = ChIn" "w_out (workers s ! j) = Outs j"
proof -
  from assms(1)
  have "map (\<lambda>w. (w_in w, w_out w)) (workers s) = map (\<lambda>j. (ChIn, Outs j)) [0..<length (workers s)]"
    by (simp add: wired_def wires_ok_def)
  then have "map (\<lambda>w. (w_in w, w_out w)) (workers s) ! j =
      map (\<lambda>j. (ChIn, Outs j)) [0..<length (workers s)] ! j"
    by simp
  with assms(2) show "w_in (workers s ! j) = ChIn" "w_out (workers s ! j) = Outs j"
    by simp_all
qed

lemma wired_collector:
  assumes "wired s" "k < length (collectors s)"
  shows "c_in (collectors s ! k) = Outs k" "c_c (collectors s ! k) = Outs k"
    "c_i (collectors s ! k) = k"
proof -
  from assms(1)
  have "map (\<lambda>c. (c_in c, c_c c, c_i c)) (collectors s) =
      map (\<lambda>k. (Outs k, Outs k, k)) [0..<length (collectors s)]"
    by (simp add: wired_def wires_ok_def)
  then have "map (\<lambda>c. (c_in c, c_c c, c_i c)) (collectors s) ! k =
      map (\<lambda>k. (Outs k, Outs k, k)) [0..<length (collectors s)] ! k"
    by simp
  with assms(2) show "c_in (collectors s ! k) = Outs k" "c_c (collectors s ! k) = Outs k"
    "c_i (collectors s ! k) = k"
    by simp_all
qed

lemma wired_gen: "wired s \<Longrightarrow> gen s = Some g \<Longrightarrow> g_ch g = ChIn"
  by (simp add: wired_def wires_ok_def)

lemma wired_chan:
  assumes "wired s" "chans s c = Some ch"
  shows "ch_cap ch = cap_of c" "length (ch_buf ch) \<le> cap_of c"
  using assms unfolding wired_def caps_ok_def by blast+

lemma wired_made: "wired s \<Longrightarrow> (chans s c \<noteq> None) = (c \<in> made (main_pc s))"
  by (auto simp: wired_def made_ok_def)

lemma wired_lengths:
  assumes "wired s"
  shows "length (workers s) = started_workers (main_pc s)"
    "length (collectors s) = started_collectors (main_pc s)"
    "length (workers s) \<le> NumOut" "length (collectors s) \<le> NumOut"
    "length (amounts s) = (if 5 \<le> phase (main_pc s) then NumOut else 0)"
  using assms by (simp_all add: wired_def shape_ok_def)

lemma started_workers_pos: "0 < started_workers pc \<Longrightarrow> 3 \<le> phase pc"
  by (cases pc) simp_all

lemma started_collectors_pos: "0 < started_collectors pc \<Longrightarrow> 5 \<le> phase pc"
  by (cases pc) simp_all

lemma started_workers_full: "4 \<le> phase pc \<Longrightarrow> started_workers pc = NumOut"
  by (cases pc) simp_all

lemma started_collectors_full: "6 \<le> phase pc \<Longrightarrow> started_collectors pc = NumOut"
  by (cases pc) simp_all

lemma wired_gen_chan:
  assumes "wired s" "gen s = Some g"
  obtains ch where "chans s ChIn = Some ch" "ch_cap ch = 0" "ch_buf ch = []"
proof -
  from assms have "3 \<le> phase (main_pc s)" by (auto simp: wired_def made_ok_def)
  then have "ChIn \<in> made (main_pc s)" by (simp add: made_def)
  with assms(1) obtain ch where ch: "chans s ChIn = Some ch"
    using wired_made[of s ChIn] by auto
  with wired_chan[OF assms(1) ch] that show ?thesis by simp
qed

lemma wired_worker_chan:
  assumes "wired s" "j < length (workers s)"
  obtains ch where "chans s (Outs j) = Some ch" "ch_cap ch = 0" "ch_buf ch = []"
proof -
  from assms have "Outs j \<in> made (main_pc s)"
    by (simp add: made_def wired_lengths(1))
  with assms(1) obtain ch where ch: "chans s (Outs j) = Some ch"
    using wired_made[of s "Outs j"] by auto
  with wired_chan[OF assms(1) ch] that show ?thesis by simp
qed

lemma wired_worker_in:
  assumes "wired s" "j < length (workers s)"
  obtains ch where "chans s ChIn = Some ch" "ch_cap ch = 0" "ch_buf ch = []"
proof -
  from assms have "0 < started_workers (main_pc s)" by (simp add: wired_lengths(1))
  then have "3 \<le> phase (main_pc s)" by (rule started_workers_pos)
  then have "ChIn \<in> made (main_pc s)" by (simp add: made_def)
  with assms(1) obtain ch where ch: "chans s ChIn = Some ch"
    using wired_made[of s ChIn] by auto
  with wired_chan[OF assms(1) ch] that show ?thesis by simp
qed

lemma wired_collector_facts:
  assumes "wired s" "k < length (collectors s)"
  shows "k < length (amounts s)" "k < length (workers s)" "k < NumOut"
proof -
  from assms have pos: "0 < started_collectors (main_pc s)" by (simp add: wired_lengths(2))
  then have ph: "5 \<le> phase (main_pc s)" by (rule started_collectors_pos)
  from assms wired_lengths(4)[OF assms(1)] show k: "k < NumOut" by simp
  from ph wired_lengths(5)[OF assms(1)] k show "k < length (amounts s)" by simp
  from ph have "started_workers (main_pc s) = NumOut" by (simp add: started_workers_full)
  with wired_lengths(1)[OF assms(1)] k show "k < length (workers s)" by simp
qed

lemma wired_chOut:
  assumes "wired s" "5 \<le> phase (main_pc s)"
  obtains ch where "chans s ChOut = Some ch" "ch_cap ch = NumOut" "length (ch_buf ch) \<le> NumOut"
proof -
  from assms(2) have "ChOut \<in> made (main_pc s)" by (simp add: made_def)
  with assms(1) obtain ch where ch: "chans s ChOut = Some ch"
    using wired_made[of s ChOut] by auto
  with wired_chan[OF assms(1) ch] that show ?thesis by simp
qed

lemma exec_flat [consumes 2, case_names
    Deadline Make_ChIn With_Timeout Go_Generator Go_Worker Workers_Done Setup
    Go_Collector Collectors_Done Go_Barrier Report Main_Recv Main_Saw_Closed Select
    Fn_Sum Fn_Count Incr Gen_Close Gen_Close_Panic Gen_Send_Closed Sleep Worker_Close
    Worker_Close_Panic Worker_Saw_Closed Worker_Send_Closed Amount Wg_Done
    Wg_Done_Panic Coll_Saw_Closed Coll_Send_Closed Coll_Send Wait Barrier_Close
    Barrier_Close_Panic Gen_To_Worker Worker_To_Coll]:
  assumes "exec e s = Some s'" "wired s"
  obtains
    (Deadline) "e = Deadline" "ctx_done s = Some False"
      "s' = s\<lparr>ctx_done := Some True\<rparr>"
  | (Make_ChIn) "e = Step P_Main" "main_pc s = M_Make_ChIn"
      "s' = s\<lparr>chans := (chans s)(ChIn \<mapsto> make_chan 0), main_pc := M_With_Timeout\<rparr>"
  | (With_Timeout) "e = Step P_Main" "main_pc s = M_With_Timeout"
      "s' = s\<lparr>ctx_done := Some False, main_pc := M_Go_Generator\<rparr>"
  | (Go_Generator) "e = Step P_Main" "main_pc s = M_Go_Generator"
      "s' = s\<lparr>gen := Some \<lparr>g_pc = G_Select, g_ch = ChIn, g_current = 1\<rparr>,
              main_pc := M_Workers 0\<rparr>"
  | (Go_Worker) i where "e = Step P_Main" "main_pc s = M_Workers i" "i < NumOut"
      "s' = s\<lparr>chans := (chans s)(Outs i \<mapsto> make_chan 0),
              workers := workers s @ [\<lparr>w_pc = W_Recv, w_in = ChIn, w_out = Outs i\<rparr>],
              main_pc := M_Workers (i + 1)\<rparr>"
  | (Workers_Done) "e = Step P_Main" "main_pc s = M_Workers NumOut"
      "s' = s\<lparr>main_pc := M_Setup\<rparr>"
  | (Setup) "e = Step P_Main" "main_pc s = M_Setup"
      "s' = s\<lparr>amounts := replicate NumOut 0,
              chans := (chans s)(ChOut \<mapsto> make_chan NumOut),
              wg := wg s + int NumOut,
              main_pc := M_Collectors 0\<rparr>"
  | (Go_Collector) i where "e = Step P_Main" "main_pc s = M_Collectors i" "i < NumOut"
      "s' = s\<lparr>collectors := collectors s @
                [\<lparr>c_pc = C_Recv, c_in = Outs i, c_c = Outs i, c_i = i\<rparr>],
              main_pc := M_Collectors (i + 1)\<rparr>"
  | (Collectors_Done) "e = Step P_Main" "main_pc s = M_Collectors NumOut"
      "s' = s\<lparr>main_pc := M_Go_Barrier\<rparr>"
  | (Go_Barrier) "e = Step P_Main" "main_pc s = M_Go_Barrier"
      "s' = s\<lparr>waiter := Some B_Wait, main_pc := M_Range\<rparr>"
  | (Report) "e = Step P_Main" "main_pc s = M_Report"
      "s' = s\<lparr>stdout := [Counts (inputCount s) (count_m s), Sums (inputSum s) (sum_m s),
                          Split (amounts s)],
              inputCount :=
                snd (check_results (inputSum s) (sum_m s) (inputCount s) (count_m s) (amounts s)),
              result :=
                Some (fst (check_results (inputSum s) (sum_m s) (inputCount s) (count_m s)
                  (amounts s))),
              ctx_done :=
                (if fst (check_results (inputSum s) (sum_m s) (inputCount s) (count_m s)
                  (amounts s)) = Returned then Some True else ctx_done s),
              main_pc := M_Exited\<rparr>"
  | (Main_Recv) v vs ch where "e = Step P_Main" "main_pc s = M_Range" "chans s ChOut = Some ch"
      "ch_buf ch = v # vs"
      "s' = received P_Main v True (log (Received P_Main ChOut v)
              (s\<lparr>chans := (chans s)(ChOut \<mapsto> ch\<lparr>ch_buf := vs\<rparr>)\<rparr>))"
  | (Main_Saw_Closed) ch where "e = Step P_Main" "main_pc s = M_Range"
      "chans s ChOut = Some ch" "ch_buf ch = []" "ch_closed ch"
      "s' = received P_Main 0 False (log (Saw_Closed P_Main ChOut) s)"
  | (Select) g where "e = Step P_Generator" "gen s = Some g" "g_pc g = G_Select"
      "s' = set_gpc (if ctx_done s = Some True then G_Close else G_Send) s"
  | (Fn_Sum) g where "e = Step P_Generator" "gen s = Some g" "g_pc g = G_Fn_Sum"
      "s' = set_gpc G_Fn_Count
              (log (Called_Fn (g_current g)) (s\<lparr>inputSum := inputSum s + g_current g\<rparr>))"
  | (Fn_Count) g where "e = Step P_Generator" "gen s = Some g" "g_pc g = G_Fn_Count"
      "s' = set_gpc G_Incr (s\<lparr>inputCount := inputCount s + 1\<rparr>)"
  | (Incr) g where "e = Step P_Generator" "gen s = Some g" "g_pc g = G_Incr"
      "s' = s\<lparr>gen := Some (g\<lparr>g_current := g_current g + 1, g_pc := G_Select\<rparr>)\<rparr>"
  | (Gen_Close) g ch where "e = Step P_Generator" "gen s = Some g" "g_pc g = G_Close"
      "chans s ChIn = Some ch" "\<not> ch_closed ch"
      "s' = close_chan P_Generator ChIn (set_gpc G_Done s)"
  | (Gen_Close_Panic) g ch where "e = Step P_Generator" "gen s = Some g" "g_pc g = G_Close"
      "chans s ChIn = Some ch" "ch_closed ch"
      "s' = panic (set_gpc G_Done s)"
  | (Gen_Send_Closed) g ch where "e = Step P_Generator" "gen s = Some g" "g_pc g = G_Send"
      "chans s ChIn = Some ch" "ch_closed ch"
      "s' = panic s"
  | (Sleep) j where "e = Step (P_Worker j)" "j < length (workers s)"
      "w_pc (workers s ! j) = W_Sleep"
      "s' = set_wpc j W_Recv (log (Slept j Millisecond) s)"
  | (Worker_Close) j ch where "e = Step (P_Worker j)" "j < length (workers s)"
      "w_pc (workers s ! j) = W_Close" "chans s (Outs j) = Some ch" "\<not> ch_closed ch"
      "s' = close_chan (P_Worker j) (Outs j) (set_wpc j W_Done s)"
  | (Worker_Close_Panic) j ch where "e = Step (P_Worker j)" "j < length (workers s)"
      "w_pc (workers s ! j) = W_Close" "chans s (Outs j) = Some ch" "ch_closed ch"
      "s' = panic (set_wpc j W_Done s)"
  | (Worker_Saw_Closed) j ch where "e = Step (P_Worker j)" "j < length (workers s)"
      "w_pc (workers s ! j) = W_Recv" "chans s ChIn = Some ch" "ch_closed ch"
      "s' = received (P_Worker j) 0 False (log (Saw_Closed (P_Worker j) ChIn) s)"
  | (Worker_Send_Closed) j v ch where "e = Step (P_Worker j)" "j < length (workers s)"
      "w_pc (workers s ! j) = W_Send v" "chans s (Outs j) = Some ch" "ch_closed ch"
      "s' = panic s"
  | (Amount) k where "e = Step (P_Collector k)" "k < length (collectors s)"
      "c_pc (collectors s ! k) = C_Incr" "k < length (amounts s)"
      "s' = set_cpc k C_Recv (s\<lparr>amounts := (amounts s)[k := amounts s ! k + 1]\<rparr>)"
  | (Wg_Done) k where "e = Step (P_Collector k)" "k < length (collectors s)"
      "c_pc (collectors s ! k) = C_Wg_Done" "0 < wg s"
      "s' = set_cpc k C_Done (s\<lparr>wg := wg s - 1\<rparr>)"
  | (Wg_Done_Panic) k where "e = Step (P_Collector k)" "k < length (collectors s)"
      "c_pc (collectors s ! k) = C_Wg_Done" "wg s \<le> 0"
      "s' = panic s"
  | (Coll_Saw_Closed) k ch where "e = Step (P_Collector k)" "k < length (collectors s)"
      "c_pc (collectors s ! k) = C_Recv" "chans s (Outs k) = Some ch" "ch_closed ch"
      "s' = received (P_Collector k) 0 False (log (Saw_Closed (P_Collector k) (Outs k)) s)"
  | (Coll_Send_Closed) k v ch where "e = Step (P_Collector k)" "k < length (collectors s)"
      "c_pc (collectors s ! k) = C_Send v" "chans s ChOut = Some ch" "ch_closed ch"
      "s' = panic s"
  | (Coll_Send) k v ch where "e = Step (P_Collector k)" "k < length (collectors s)"
      "c_pc (collectors s ! k) = C_Send v" "chans s ChOut = Some ch" "\<not> ch_closed ch"
      "length (ch_buf ch) < NumOut"
      "s' = sent (P_Collector k) (log (Sent (P_Collector k) ChOut v)
              (s\<lparr>chans := (chans s)(ChOut \<mapsto> ch\<lparr>ch_buf := ch_buf ch @ [v]\<rparr>)\<rparr>))"
  | (Wait) "e = Step P_Barrier" "waiter s = Some B_Wait" "wg s = 0"
      "s' = s\<lparr>waiter := Some B_Close\<rparr>"
  | (Barrier_Close) ch where "e = Step P_Barrier" "waiter s = Some B_Close"
      "chans s ChOut = Some ch" "\<not> ch_closed ch"
      "s' = close_chan P_Barrier ChOut (s\<lparr>waiter := Some B_Done\<rparr>)"
  | (Barrier_Close_Panic) ch where "e = Step P_Barrier" "waiter s = Some B_Close"
      "chans s ChOut = Some ch" "ch_closed ch"
      "s' = panic (s\<lparr>waiter := Some B_Done\<rparr>)"
  | (Gen_To_Worker) g j ch where "e = Handoff P_Generator (P_Worker j)" "gen s = Some g"
      "g_pc g = G_Send" "j < length (workers s)" "w_pc (workers s ! j) = W_Recv"
      "chans s ChIn = Some ch" "\<not> ch_closed ch"
      "s' = received (P_Worker j) (g_current g) True (sent P_Generator
              (log (Received (P_Worker j) ChIn (g_current g))
                (log (Sent P_Generator ChIn (g_current g)) s)))"
  | (Worker_To_Coll) j v ch where "e = Handoff (P_Worker j) (P_Collector j)"
      "j < length (workers s)" "w_pc (workers s ! j) = W_Send v" "j < length (collectors s)"
      "c_pc (collectors s ! j) = C_Recv" "chans s (Outs j) = Some ch" "\<not> ch_closed ch"
      "s' = received (P_Collector j) v True (sent (P_Worker j)
              (log (Received (P_Collector j) (Outs j) v) (log (Sent (P_Worker j) (Outs j) v) s)))"
  using assms(1)
proof (cases rule: exec_cases)
  case Deadline
  then show ?thesis by (intro that(1))
next
  case (Local p)
  show ?thesis
  proof (cases p)
    case P_Main
    with Local have m: "main s = Some s'" and e: "e = Step P_Main" by simp_all
    from m show ?thesis
    proof (cases rule: main_cases)
      case Make_ChIn
      with e show ?thesis by (intro that(2))
    next
      case With_Timeout
      with e show ?thesis by (intro that(3))
    next
      case Go_Generator
      with e show ?thesis by (intro that(4))
    next
      case (Go_Worker i)
      with e show ?thesis by (intro that(5)[where i=i])
    next
      case (Workers_Done i)
      with wired_lengths(1,3)[OF assms(2)] have "i = NumOut" by simp
      with e Workers_Done show ?thesis by (intro that(6)) simp_all
    next
      case Setup
      with e show ?thesis by (intro that(7))
    next
      case (Go_Collector i)
      with e show ?thesis by (intro that(8)[where i=i])
    next
      case (Collectors_Done i)
      with wired_lengths(2,4)[OF assms(2)] have "i = NumOut" by simp
      with e Collectors_Done show ?thesis by (intro that(9)) simp_all
    next
      case Go_Barrier
      with e show ?thesis by (intro that(10))
    next
      case Report
      with e show ?thesis by (intro that(11))
    qed
  next
    case P_Generator
    with Local have m: "Generator s = Some s'" and e: "e = Step P_Generator" by simp_all
    from m show ?thesis
    proof (cases rule: Generator_cases)
      case (Select g)
      with e show ?thesis by (intro that(14)[where g=g])
    next
      case (Fn_Sum g)
      with e show ?thesis by (intro that(15)[where g=g])
    next
      case (Fn_Count g)
      with e show ?thesis by (intro that(16)[where g=g])
    next
      case (Incr g)
      with e show ?thesis by (intro that(17)[where g=g])
    next
      case (Close g)
      from wired_gen[OF assms(2) Close(1)] have c: "g_ch g = ChIn" .
      from assms(2) Close(1) obtain ch where ch: "chans s ChIn = Some ch"
        by (rule wired_gen_chan)
      show ?thesis
      proof (cases "ch_closed ch")
        case True
        with e Close c ch show ?thesis
          by (intro that(19)[where g=g and ch=ch]) (simp_all add: close_chan_def set_gpc_def)
      next
        case False
        with e Close c ch show ?thesis by (intro that(18)[where g=g and ch=ch]) simp_all
      qed
    qed
  next
    case (P_Worker j)
    with Local have m: "Worker j s = Some s'" and e: "e = Step (P_Worker j)" by simp_all
    from m show ?thesis
    proof (cases rule: Worker_cases)
      case Sleep
      with e show ?thesis by (intro that(21)[where j=j])
    next
      case Close
      from wired_worker(2)[OF assms(2) Close(1)] have c: "w_out (workers s ! j) = Outs j" .
      from assms(2) Close(1) obtain ch where ch: "chans s (Outs j) = Some ch"
        by (rule wired_worker_chan)
      show ?thesis
      proof (cases "ch_closed ch")
        case True
        with e Close c ch show ?thesis
          by (intro that(23)[where j=j and ch=ch]) (simp_all add: close_chan_def set_wpc_def)
      next
        case False
        with e Close c ch show ?thesis by (intro that(22)[where j=j and ch=ch]) simp_all
      qed
    qed
  next
    case (P_Collector k)
    with Local have m: "collect k s = Some s'" and e: "e = Step (P_Collector k)" by simp_all
    from m show ?thesis
    proof (cases rule: collect_cases)
      case Incr
      with e wired_collector(3)[OF assms(2) Incr(1)] show ?thesis
        by (intro that(26)[where k=k]) simp_all
    next
      case Incr_Panic
      with wired_collector(3)[OF assms(2) Incr_Panic(1)]
        wired_collector_facts(1)[OF assms(2) Incr_Panic(1)]
      show ?thesis by simp
    next
      case Wg_Done
      with e show ?thesis by (intro that(27)[where k=k]) simp_all
    next
      case Wg_Done_Panic
      with e show ?thesis by (intro that(28)[where k=k]) simp_all
    qed
  next
    case P_Barrier
    with Local have m: "wait_close s = Some s'" and e: "e = Step P_Barrier" by simp_all
    from m show ?thesis
    proof (cases rule: wait_close_cases)
      case Wait
      with e show ?thesis by (intro that(32))
    next
      case Close
      from assms(2) Close(1) have "5 \<le> phase (main_pc s)"
        by (auto simp: wired_def made_ok_def)
      with assms(2) obtain ch where ch: "chans s ChOut = Some ch"
        by (rule wired_chOut)
      show ?thesis
      proof (cases "ch_closed ch")
        case True
        with e Close ch show ?thesis
          by (intro that(34)[where ch=ch]) (simp_all add: close_chan_def)
      next
        case False
        with e Close ch show ?thesis by (intro that(33)[where ch=ch]) simp_all
      qed
    qed
  qed
next
  case (Send_Closed p c v ch)
  from Send_Closed(2) show ?thesis
  proof (cases rule: sending_cases)
    case (Generator g)
    with Send_Closed wired_gen[OF assms(2) Generator(2)] show ?thesis
      by (intro that(20)[where g=g and ch=ch]) simp_all
  next
    case (Worker j)
    with Send_Closed wired_worker(2)[OF assms(2) Worker(2)] show ?thesis
      by (intro that(25)[where j=j and v=v and ch=ch]) simp_all
  next
    case (Collector k)
    with Send_Closed show ?thesis by (intro that(30)[where k=k and v=v and ch=ch]) simp_all
  qed
next
  case (Send_Buf p c v ch)
  from wired_chan(1)[OF assms(2) Send_Buf(3)] Send_Buf(5)
  have len: "length (ch_buf ch) < cap_of c" by simp
  from Send_Buf(2) show ?thesis
  proof (cases rule: sending_cases)
    case (Generator g)
    with len wired_gen[OF assms(2) Generator(2)] show ?thesis by simp
  next
    case (Worker j)
    with len wired_worker(2)[OF assms(2) Worker(2)] show ?thesis by simp
  next
    case (Collector k)
    with Send_Buf len show ?thesis by (intro that(31)[where k=k and v=v and ch=ch]) simp_all
  qed
next
  case (Recv_Buf p c v vs ch)
  from wired_chan(2)[OF assms(2) Recv_Buf(4)] Recv_Buf(5)
  have len: "0 < cap_of c" by simp
  from Recv_Buf(3) show ?thesis
  proof (cases rule: receiving_cases)
    case (Worker j)
    with len wired_worker(1)[OF assms(2) Worker(2)] show ?thesis by simp
  next
    case (Collector k)
    with len wired_collector(2)[OF assms(2) Collector(2)] show ?thesis by simp
  next
    case Main
    with Recv_Buf show ?thesis by (intro that(12)[where ch=ch and v=v and vs=vs]) simp_all
  qed
next
  case (Recv_Closed p c ch)
  from Recv_Closed(3) show ?thesis
  proof (cases rule: receiving_cases)
    case (Worker j)
    with Recv_Closed wired_worker(1)[OF assms(2) Worker(2)] show ?thesis
      by (intro that(24)[where j=j and ch=ch]) simp_all
  next
    case (Collector k)
    with Recv_Closed wired_collector(2)[OF assms(2) Collector(2)] show ?thesis
      by (intro that(29)[where k=k and ch=ch]) simp_all
  next
    case Main
    with Recv_Closed show ?thesis by (intro that(13)[where ch=ch]) simp_all
  qed
next
  case (Handoff p q c v ch)
  from wired_chan(1)[OF assms(2) Handoff(4)] Handoff(5) have cap: "cap_of c = 0" by simp
  from Handoff(2) show ?thesis
  proof (cases rule: sending_cases)
    case (Generator g)
    from wired_gen[OF assms(2) Generator(2)] Generator(4) have c: "c = ChIn" by simp
    from Handoff(3) show ?thesis
    proof (cases rule: receiving_cases)
      case (Worker j)
      with Handoff Generator c show ?thesis by (intro that(35)[where g=g and j=j and ch=ch]) simp_all
    next
      case (Collector k)
      with c wired_collector(2)[OF assms(2) Collector(2)] show ?thesis by simp
    next
      case Main
      with c show ?thesis by simp
    qed
  next
    case (Worker j)
    from wired_worker(2)[OF assms(2) Worker(2)] Worker(4) have c: "c = Outs j" by simp
    from Handoff(3) show ?thesis
    proof (cases rule: receiving_cases)
      case (Worker j')
      with c wired_worker(1)[OF assms(2) Worker(2)] show ?thesis by simp
    next
      case (Collector k)
      with c wired_collector(2)[OF assms(2) Collector(2)] have "k = j" by simp
      with Handoff Worker Collector c show ?thesis
        by (intro that(36)[where j=j and v=v and ch=ch]) simp_all
    next
      case Main
      with c show ?thesis by simp
    qed
  next
    case (Collector k)
    with cap show ?thesis by (simp add: NumOut_def)
  qed
qed

section \<open>The shutdown cascade is invariant\<close>

lemma set_gpc_simps [simp]:
  "chans (set_gpc pc s) = chans s" "ctx_done (set_gpc pc s) = ctx_done s"
  "inputSum (set_gpc pc s) = inputSum s" "inputCount (set_gpc pc s) = inputCount s"
  "amounts (set_gpc pc s) = amounts s" "wg (set_gpc pc s) = wg s"
  "main_pc (set_gpc pc s) = main_pc s" "count_m (set_gpc pc s) = count_m s"
  "sum_m (set_gpc pc s) = sum_m s" "workers (set_gpc pc s) = workers s"
  "collectors (set_gpc pc s) = collectors s" "waiter (set_gpc pc s) = waiter s"
  "panicked (set_gpc pc s) = panicked s" "stdout (set_gpc pc s) = stdout s"
  "result (set_gpc pc s) = result s" "hist (set_gpc pc s) = hist s"
  "gen (set_gpc pc s) = map_option (\<lambda>g. g\<lparr>g_pc := pc\<rparr>) (gen s)"
  by (simp_all add: set_gpc_def)

lemma set_wpc_simps [simp]:
  "chans (set_wpc j pc s) = chans s" "ctx_done (set_wpc j pc s) = ctx_done s"
  "inputSum (set_wpc j pc s) = inputSum s" "inputCount (set_wpc j pc s) = inputCount s"
  "amounts (set_wpc j pc s) = amounts s" "wg (set_wpc j pc s) = wg s"
  "main_pc (set_wpc j pc s) = main_pc s" "count_m (set_wpc j pc s) = count_m s"
  "sum_m (set_wpc j pc s) = sum_m s" "gen (set_wpc j pc s) = gen s"
  "collectors (set_wpc j pc s) = collectors s" "waiter (set_wpc j pc s) = waiter s"
  "panicked (set_wpc j pc s) = panicked s" "stdout (set_wpc j pc s) = stdout s"
  "result (set_wpc j pc s) = result s" "hist (set_wpc j pc s) = hist s"
  "workers (set_wpc j pc s) = (workers s)[j := (workers s ! j)\<lparr>w_pc := pc\<rparr>]"
  by (simp_all add: set_wpc_def)

lemma set_cpc_simps [simp]:
  "chans (set_cpc k pc s) = chans s" "ctx_done (set_cpc k pc s) = ctx_done s"
  "inputSum (set_cpc k pc s) = inputSum s" "inputCount (set_cpc k pc s) = inputCount s"
  "amounts (set_cpc k pc s) = amounts s" "wg (set_cpc k pc s) = wg s"
  "main_pc (set_cpc k pc s) = main_pc s" "count_m (set_cpc k pc s) = count_m s"
  "sum_m (set_cpc k pc s) = sum_m s" "gen (set_cpc k pc s) = gen s"
  "workers (set_cpc k pc s) = workers s" "waiter (set_cpc k pc s) = waiter s"
  "panicked (set_cpc k pc s) = panicked s" "stdout (set_cpc k pc s) = stdout s"
  "result (set_cpc k pc s) = result s" "hist (set_cpc k pc s) = hist s"
  "collectors (set_cpc k pc s) = (collectors s)[k := (collectors s ! k)\<lparr>c_pc := pc\<rparr>]"
  by (simp_all add: set_cpc_def)

lemma log_simps [simp]:
  "ctx_done (log a s) = ctx_done s"
  "inputSum (log a s) = inputSum s" "inputCount (log a s) = inputCount s"
  "amounts (log a s) = amounts s" "wg (log a s) = wg s"
  "count_m (log a s) = count_m s"
  "sum_m (log a s) = sum_m s" "gen (log a s) = gen s" "workers (log a s) = workers s"
  "collectors (log a s) = collectors s" "waiter (log a s) = waiter s"
  "panicked (log a s) = panicked s" "stdout (log a s) = stdout s"
  "result (log a s) = result s" "hist (log a s) = hist s @ [a]"
  by (simp_all add: log_def)

lemma panic_simps [simp]:
  "panicked (panic s) = True" "hist (panic s) = hist s"
  by (simp_all add: panic_def)

lemma close_chan_open:
  "chans s c = Some ch \<Longrightarrow> \<not> ch_closed ch \<Longrightarrow>
   close_chan p c s = log (Closed p c) (s\<lparr>chans := (chans s)(c \<mapsto> ch\<lparr>ch_closed := True\<rparr>)\<rparr>)"
  by (simp add: close_chan_def)

lemma cascade_init: "cascade init"
  by (simp add: cascade_def gen_closes_def workers_close_def collectors_close_def
      wg_counts_def waiter_closes_def main_drained_def init_def chan_closed_def)

lemma filter_update_length:
  "k < length xs \<Longrightarrow>
   length (filter P (xs[k := x])) + (if P (xs ! k) then 1 else 0) =
   length (filter P xs) + (if P x then 1 else 0)"
proof (induction xs arbitrary: k)
  case Nil
  then show ?case by simp
next
  case (Cons a xs)
  then show ?case by (cases k) auto
qed

lemma done_collectors_less:
  assumes "k < length (collectors s)" "c_pc (collectors s ! k) \<noteq> C_Done"
  shows "done_collectors s < length (collectors s)"
  unfolding done_collectors_def
  by (rule length_filter_less[of "collectors s ! k"]) (use assms in simp_all)

lemma done_collectors_set_cpc:
  assumes "k < length (collectors s)"
  shows "done_collectors (set_cpc k pc s) + (if c_pc (collectors s ! k) = C_Done then 1 else 0) =
    done_collectors s + (if pc = C_Done then 1 else 0)"
  using filter_update_length[OF assms, of "\<lambda>c. c_pc c = C_Done" "(collectors s ! k)\<lparr>c_pc := pc\<rparr>"]
  by (simp add: done_collectors_def)

lemma collectors_phase:
  assumes "wired s" "k < length (collectors s)"
  shows "5 \<le> phase (main_pc s)"
proof -
  from assms have "0 < started_collectors (main_pc s)" by (simp add: wired_lengths(2))
  then show ?thesis by (rule started_collectors_pos)
qed

lemma wg_positive:
  assumes "wired s" "wg_counts s" "k < length (collectors s)"
    "c_pc (collectors s ! k) \<noteq> C_Done"
  shows "0 < wg s"
proof -
  from assms(1,3) have "5 \<le> phase (main_pc s)" by (rule collectors_phase)
  with assms(2) have "wg s = int NumOut - int (done_collectors s)" by (simp add: wg_counts_def)
  moreover from assms(3,4) have "done_collectors s < length (collectors s)"
    by (rule done_collectors_less)
  moreover from assms(1) have "length (collectors s) \<le> NumOut" by (rule wired_lengths(4))
  ultimately show ?thesis by simp
qed

lemma no_panic_exec:
  assumes "exec e s = Some s'" "wired s" "cascade s"
  shows "\<not> panicked s'"
  using assms(1,2)
proof (cases rule: exec_flat)
  case (Gen_Close_Panic g ch)
  with assms(3) show ?thesis by (simp add: cascade_def gen_closes_def chan_closed_def)
next
  case (Gen_Send_Closed g ch)
  with assms(3) show ?thesis by (simp add: cascade_def gen_closes_def chan_closed_def)
next
  case (Worker_Close_Panic j ch)
  with assms(3) show ?thesis by (auto simp: cascade_def workers_close_def chan_closed_def)
next
  case (Worker_Send_Closed j v ch)
  with assms(3) show ?thesis by (auto simp: cascade_def workers_close_def chan_closed_def)
next
  case (Barrier_Close_Panic ch)
  with assms(3) show ?thesis by (simp add: cascade_def waiter_closes_def chan_closed_def)
next
  case (Wg_Done_Panic k)
  from assms(3) have wc: "wg_counts s" by (simp add: cascade_def)
  have "0 < wg s"
    by (rule wg_positive[OF assms(2) wc Wg_Done_Panic(2)]) (simp add: Wg_Done_Panic(3))
  with Wg_Done_Panic(4) show ?thesis by simp
next
  case (Coll_Send_Closed k v ch)
  from assms(3) have wc: "wg_counts s" by (simp add: cascade_def)
  have "0 < wg s"
    by (rule wg_positive[OF assms(2) wc Coll_Send_Closed(2)]) (simp add: Coll_Send_Closed(3))
  moreover from assms(3) Coll_Send_Closed(4,5) have "wg s = 0"
    by (simp add: cascade_def waiter_closes_def chan_closed_def)
  ultimately show ?thesis by simp
qed (use assms(3) in \<open>simp_all add: cascade_def close_chan_open\<close>)

lemma make_chan_simps [simp]:
  "ch_cap (make_chan n) = n" "ch_buf (make_chan n) = []" "ch_closed (make_chan n) = False"
  by (simp_all add: make_chan_def)

lemma wired_exists:
  assumes "wired s"
  shows "(chans s c = None) = (c \<notin> made (main_pc s))"
    "(gen s = None) = (phase (main_pc s) < 3)"
    "(waiter s = None) = (phase (main_pc s) < 7)"
    "(ctx_done s = None) = (phase (main_pc s) < 2)"
  using assms wired_made[OF assms, of c] by (auto simp: wired_def made_ok_def)

lemma gen_closes_exec:
  assumes "exec e s = Some s'" "wired s" "cascade s"
  shows "gen_closes s'"
proof -
  from assms have np: "\<not> panicked s'" by (rule no_panic_exec)
  from assms(3) have g: "gen_closes s" by (simp add: cascade_def)
  note ex = wired_exists[OF assms(2)]
  from assms(1,2) show ?thesis
  proof (cases rule: exec_flat)
  qed (use np g ex(2) ex(1)[of ChIn] in \<open>auto simp: gen_closes_def chan_closed_def close_chan_open
        made_def split: option.splits\<close>)
qed

lemma chans_panic [simp]: "chans (panic s) = chans s"
  by (simp add: panic_def)

lemma chan_closed_simps [simp]:
  "chan_closed (s\<lparr>ctx_done := x1\<rparr>) = chan_closed s"
  "chan_closed (s\<lparr>inputSum := x2\<rparr>) = chan_closed s"
  "chan_closed (s\<lparr>inputCount := x3\<rparr>) = chan_closed s"
  "chan_closed (s\<lparr>amounts := x4\<rparr>) = chan_closed s"
  "chan_closed (s\<lparr>wg := x5\<rparr>) = chan_closed s"
  "chan_closed (s\<lparr>main_pc := x6\<rparr>) = chan_closed s"
  "chan_closed (s\<lparr>count_m := x7\<rparr>) = chan_closed s"
  "chan_closed (s\<lparr>sum_m := x8\<rparr>) = chan_closed s"
  "chan_closed (s\<lparr>gen := x9\<rparr>) = chan_closed s"
  "chan_closed (s\<lparr>workers := x10\<rparr>) = chan_closed s"
  "chan_closed (s\<lparr>collectors := x11\<rparr>) = chan_closed s"
  "chan_closed (s\<lparr>waiter := x12\<rparr>) = chan_closed s"
  "chan_closed (s\<lparr>panicked := x13\<rparr>) = chan_closed s"
  "chan_closed (s\<lparr>stdout := x14\<rparr>) = chan_closed s"
  "chan_closed (s\<lparr>result := x15\<rparr>) = chan_closed s"
  "chan_closed (s\<lparr>hist := x16\<rparr>) = chan_closed s"
  "chan_closed (set_gpc pc s) = chan_closed s"
  "chan_closed (set_wpc j w s) = chan_closed s"
  "chan_closed (set_cpc k q s) = chan_closed s"
  "chan_closed (log a s) = chan_closed s"
  "chan_closed (panic s) = chan_closed s"
  "chan_closed (s\<lparr>chans := m\<rparr>) c = (case m c of None \<Rightarrow> False | Some ch \<Rightarrow> ch_closed ch)"
  "(case chans s c of None \<Rightarrow> False | Some ch \<Rightarrow> ch_closed ch) = chan_closed s c"
  by (simp_all add: chan_closed_def fun_eq_iff)

lemma chan_buf_simps [simp]:
  "chan_buf (s\<lparr>ctx_done := x17\<rparr>) = chan_buf s"
  "chan_buf (s\<lparr>inputSum := x18\<rparr>) = chan_buf s"
  "chan_buf (s\<lparr>inputCount := x19\<rparr>) = chan_buf s"
  "chan_buf (s\<lparr>amounts := x20\<rparr>) = chan_buf s"
  "chan_buf (s\<lparr>wg := x21\<rparr>) = chan_buf s"
  "chan_buf (s\<lparr>main_pc := x22\<rparr>) = chan_buf s"
  "chan_buf (s\<lparr>count_m := x23\<rparr>) = chan_buf s"
  "chan_buf (s\<lparr>sum_m := x24\<rparr>) = chan_buf s"
  "chan_buf (s\<lparr>gen := x25\<rparr>) = chan_buf s"
  "chan_buf (s\<lparr>workers := x26\<rparr>) = chan_buf s"
  "chan_buf (s\<lparr>collectors := x27\<rparr>) = chan_buf s"
  "chan_buf (s\<lparr>waiter := x28\<rparr>) = chan_buf s"
  "chan_buf (s\<lparr>panicked := x29\<rparr>) = chan_buf s"
  "chan_buf (s\<lparr>stdout := x30\<rparr>) = chan_buf s"
  "chan_buf (s\<lparr>result := x31\<rparr>) = chan_buf s"
  "chan_buf (s\<lparr>hist := x32\<rparr>) = chan_buf s"
  "chan_buf (set_gpc pc s) = chan_buf s"
  "chan_buf (set_wpc j w s) = chan_buf s"
  "chan_buf (set_cpc k q s) = chan_buf s"
  "chan_buf (log a s) = chan_buf s"
  "chan_buf (panic s) = chan_buf s"
  "chan_buf (s\<lparr>chans := m\<rparr>) c = (case m c of None \<Rightarrow> [] | Some ch \<Rightarrow> ch_buf ch)"
  "(case chans s c of None \<Rightarrow> [] | Some ch \<Rightarrow> ch_buf ch) = chan_buf s c"
  by (simp_all add: chan_buf_def fun_eq_iff)

lemma chan_Some:
  "chans s c = Some ch \<Longrightarrow> chan_closed s c = ch_closed ch"
  "chans s c = Some ch \<Longrightarrow> chan_buf s c = ch_buf ch"
  by (simp_all add: chan_closed_def chan_buf_def)

lemma chan_None:
  "chans s c = None \<Longrightarrow> chan_closed s c = False"
  "chans s c = None \<Longrightarrow> chan_buf s c = []"
  by (simp_all add: chan_closed_def chan_buf_def)

lemma workers_close_exec:
  assumes "exec e s = Some s'" "wired s" "cascade s"
  shows "workers_close s'"
proof -
  from assms have np: "\<not> panicked s'" by (rule no_panic_exec)
  from assms(3) have g: "workers_close s" by (simp add: cascade_def)
  note len = wired_lengths(1)[OF assms(2)]
  from assms(1,2) show ?thesis
  proof (cases rule: exec_flat)
  qed (use np g len in \<open>auto simp: workers_close_def chan_Some close_chan_open
        nth_list_update nth_append less_Suc_eq\<close>)
qed

lemma collectors_close_exec:
  assumes "exec e s = Some s'" "wired s" "cascade s"
  shows "collectors_close s'"
proof -
  from assms have np: "\<not> panicked s'" by (rule no_panic_exec)
  from assms(3) have g: "collectors_close s" by (simp add: cascade_def)
  note len = wired_lengths(1,2)[OF assms(2)]
  from assms(1,2) show ?thesis
  proof (cases rule: exec_flat)
  qed (use np g len in \<open>auto simp: collectors_close_def chan_Some close_chan_open
        nth_list_update nth_append less_Suc_eq\<close>)
qed

lemma done_collectors_simps [simp]:
  "done_collectors (s\<lparr>ctx_done := y0\<rparr>) = done_collectors s"
  "done_collectors (s\<lparr>inputSum := y1\<rparr>) = done_collectors s"
  "done_collectors (s\<lparr>inputCount := y2\<rparr>) = done_collectors s"
  "done_collectors (s\<lparr>amounts := y3\<rparr>) = done_collectors s"
  "done_collectors (s\<lparr>wg := y4\<rparr>) = done_collectors s"
  "done_collectors (s\<lparr>main_pc := y5\<rparr>) = done_collectors s"
  "done_collectors (s\<lparr>count_m := y6\<rparr>) = done_collectors s"
  "done_collectors (s\<lparr>sum_m := y7\<rparr>) = done_collectors s"
  "done_collectors (s\<lparr>gen := y8\<rparr>) = done_collectors s"
  "done_collectors (s\<lparr>workers := y9\<rparr>) = done_collectors s"
  "done_collectors (s\<lparr>waiter := y10\<rparr>) = done_collectors s"
  "done_collectors (s\<lparr>panicked := y11\<rparr>) = done_collectors s"
  "done_collectors (s\<lparr>stdout := y12\<rparr>) = done_collectors s"
  "done_collectors (s\<lparr>result := y13\<rparr>) = done_collectors s"
  "done_collectors (s\<lparr>hist := y14\<rparr>) = done_collectors s"
  "done_collectors (s\<lparr>chans := y15\<rparr>) = done_collectors s"
  "done_collectors (set_gpc pc s) = done_collectors s"
  "done_collectors (set_wpc j w s) = done_collectors s"
  "done_collectors (log a s) = done_collectors s"
  "done_collectors (panic s) = done_collectors s"
  by (simp_all add: done_collectors_def panic_def)

lemma done_collectors_set_cpc_other:
  assumes "k < length (collectors s)" "c_pc (collectors s ! k) \<noteq> C_Done" "pc \<noteq> C_Done"
  shows "done_collectors (set_cpc k pc s) = done_collectors s"
  using done_collectors_set_cpc[OF assms(1), of pc] assms(2,3) by simp

lemma done_collectors_set_cpc_done:
  assumes "k < length (collectors s)" "c_pc (collectors s ! k) \<noteq> C_Done"
  shows "done_collectors (set_cpc k C_Done s) = Suc (done_collectors s)"
  using done_collectors_set_cpc[OF assms(1), of C_Done] assms(2) by simp

lemma done_collectors_append:
  "done_collectors (s\<lparr>collectors := collectors s @ [c]\<rparr>) =
     done_collectors s + (if c_pc c = C_Done then 1 else 0)"
  by (simp add: done_collectors_def)

lemma wg_counts_exec:
  assumes "exec e s = Some s'" "wired s" "cascade s"
  shows "wg_counts s'"
proof -
  from assms have np: "\<not> panicked s'" by (rule no_panic_exec)
  from assms(3) have g: "wg_counts s" by (simp add: cascade_def)
  note len = wired_lengths(2)[OF assms(2)]
  from assms(1,2) show ?thesis
  proof (cases rule: exec_flat)
    case Setup
    from len Setup(2) have "collectors s = []" by simp
    with g Setup show ?thesis by (simp add: wg_counts_def done_collectors_def)
  next
    case (Go_Collector i)
    with g show ?thesis by (simp add: wg_counts_def done_collectors_def)
  qed (use np g in \<open>auto simp: wg_counts_def close_chan_open
        done_collectors_set_cpc_other done_collectors_set_cpc_done split: if_splits\<close>)
qed

lemma waiter_closes_exec:
  assumes "exec e s = Some s'" "wired s" "cascade s"
  shows "waiter_closes s'"
proof -
  from assms have np: "\<not> panicked s'" by (rule no_panic_exec)
  from assms(3) have g: "waiter_closes s" by (simp add: cascade_def)
  note ex = wired_exists(3)[OF assms(2)]
  from assms(1,2) show ?thesis
  proof (cases rule: exec_flat)
  qed (use np g ex in \<open>auto simp: waiter_closes_def chan_Some close_chan_open\<close>)
qed

lemma main_drained_exec:
  assumes "exec e s = Some s'" "wired s" "cascade s"
  shows "main_drained s'"
proof -
  from assms have np: "\<not> panicked s'" by (rule no_panic_exec)
  from assms(3) have g: "main_drained s" by (simp add: cascade_def)
  from assms(1,2) show ?thesis
  proof (cases rule: exec_flat)
  qed (use np g in \<open>auto simp: main_drained_def chan_Some close_chan_open\<close>)
qed

lemma cascade_exec:
  assumes "exec e s = Some s'" "wired s" "cascade s"
  shows "cascade s'"
  unfolding cascade_def
  using no_panic_exec[OF assms] gen_closes_exec[OF assms] workers_close_exec[OF assms]
    collectors_close_exec[OF assms] wg_counts_exec[OF assms] waiter_closes_exec[OF assms]
    main_drained_exec[OF assms]
  by simp

lemma reachable_cascade: "reachable s \<Longrightarrow> cascade s"
proof (induction rule: reachable.induct)
  case start
  show ?case by (rule cascade_init)
next
  case (step s e s')
  from step(1) have "wired s" by (rule reachable_wired)
  with step(2) show ?case using step(3) by (rule cascade_exec)
qed

section \<open>The tallies are invariant\<close>

lemma sum_list_map_update:
  fixes f :: "'a \<Rightarrow> 'b::ab_group_add"
  shows "k < length xs \<Longrightarrow>
    sum_list (map f (xs[k := x])) = sum_list (map f xs) + f x - f (xs ! k)"
proof (induction xs arbitrary: k)
  case Nil
  then show ?case by simp
next
  case (Cons a xs)
  then show ?case by (cases k) (simp_all add: algebra_simps)
qed

lemma sum_list_update_word:
  fixes xs :: "int64 list"
  shows "k < length xs \<Longrightarrow> sum_list (xs[k := x]) = sum_list xs + x - xs ! k"
  using sum_list_map_update[of k xs "\<lambda>x. x" x] by simp

lemma tally_init: "tally_count init" "tally_sum init" "tally_amounts init"
  by (simp_all add: tally_count_def tally_sum_def tally_amounts_def init_def held_count_def
      held_sum_def g_cnt_def g_val_def chan_buf_def)

lemma setup_no_chOut: "wired s \<Longrightarrow> main_pc s = M_Setup \<Longrightarrow> chans s ChOut = None"
  using wired_exists(1)[of s ChOut] by (auto simp: made_def)

lemma tally_count_exec:
  assumes "exec e s = Some s'" "wired s" "cascade s" "tally_count s"
  shows "tally_count s'"
proof -
  from assms(1-3) have np: "\<not> panicked s'" by (rule no_panic_exec)
  note ex = wired_exists(2)[OF assms(2)]
  from assms(1,2) show ?thesis
  proof (cases rule: exec_flat)
    case Setup
    with assms(4) setup_no_chOut[OF assms(2) Setup(2)] show ?thesis
      by (simp add: tally_count_def held_count_def chan_None)
  qed (use np assms(4) ex in \<open>auto simp: tally_count_def held_count_def g_cnt_def chan_Some
        close_chan_open sum_list_map_update algebra_simps\<close>)
qed

lemma tally_sum_exec:
  assumes "exec e s = Some s'" "wired s" "cascade s" "tally_sum s"
  shows "tally_sum s'"
proof -
  from assms(1-3) have np: "\<not> panicked s'" by (rule no_panic_exec)
  note ex = wired_exists(2)[OF assms(2)]
  from assms(1,2) show ?thesis
  proof (cases rule: exec_flat)
    case Setup
    with assms(4) setup_no_chOut[OF assms(2) Setup(2)] show ?thesis
      by (simp add: tally_sum_def held_sum_def chan_None)
  qed (use np assms(4) ex in \<open>auto simp: tally_sum_def held_sum_def g_val_def chan_Some
        close_chan_open sum_list_map_update algebra_simps\<close>)
qed

lemma tally_amounts_exec:
  assumes "exec e s = Some s'" "wired s" "cascade s" "tally_amounts s"
  shows "tally_amounts s'"
proof -
  from assms(1-3) have np: "\<not> panicked s'" by (rule no_panic_exec)
  from assms(1,2) show ?thesis
  proof (cases rule: exec_flat)
    case Setup
    from wired_lengths(5)[OF assms(2)] Setup(2) have "amounts s = []" by simp
    with Setup assms(4) setup_no_chOut[OF assms(2) Setup(2)] show ?thesis
      by (simp add: tally_amounts_def chan_None sum_list_replicate)
  qed (use np assms(4) in \<open>auto simp: tally_amounts_def chan_Some
        close_chan_open sum_list_map_update sum_list_update_word algebra_simps\<close>)
qed

lemma reachable_tally:
  "reachable s \<Longrightarrow> tally_count s \<and> tally_sum s \<and> tally_amounts s"
proof (induction rule: reachable.induct)
  case start
  show ?case by (simp add: tally_init)
next
  case (step s e s')
  from step(1) have w: "wired s" and c: "cascade s"
    by (rule reachable_wired, rule reachable_cascade)
  from step(3) tally_count_exec[OF step(2) w c] tally_sum_exec[OF step(2) w c]
    tally_amounts_exec[OF step(2) w c]
  show ?case by simp
qed

lemma exec_not_halted: "exec e s = Some s' \<Longrightarrow> \<not> panicked s \<and> main_pc s \<noteq> M_Exited"
  by (cases e) (simp_all add: halted_def split: if_splits)

lemma sum_list_all_zero:
  fixes f :: "'a \<Rightarrow> int64"
  shows "\<forall>x\<in>set xs. f x = 0 \<Longrightarrow> sum_list (map f xs) = 0"
  by (induction xs) simp_all

lemma filter_all:
  assumes "length (filter P xs) = length xs"
  shows "\<forall>x\<in>set xs. P x"
proof (rule ccontr)
  assume "\<not> (\<forall>x\<in>set xs. P x)"
  then obtain x where "x \<in> set xs" "\<not> P x" by blast
  then have "length (filter P xs) < length xs" by (rule length_filter_less)
  with assms show False by simp
qed

text \<open>When \<open>main\<close> has left its \<open>range\<close> loop, every other goroutine has returned.\<close>

lemma drained_collectors:
  assumes "wired s" "cascade s" "8 \<le> phase (main_pc s)"
  shows "length (collectors s) = NumOut" "\<forall>c\<in>set (collectors s). c_pc c = C_Done"
proof -
  from assms(3) have pc: "main_pc s = M_Report \<or> main_pc s = M_Exited"
    by (cases "main_pc s") simp_all
  with assms(2) have "chan_closed s ChOut" by (auto simp: cascade_def main_drained_def)
  with assms(2) have "wg s = 0" by (simp add: cascade_def waiter_closes_def)
  moreover from assms(2,3) have "wg s = int NumOut - int (done_collectors s)"
    by (simp add: cascade_def wg_counts_def)
  ultimately have d: "done_collectors s = NumOut" by simp
  from pc wired_lengths(2)[OF assms(1)] show len: "length (collectors s) = NumOut" by auto
  with d show "\<forall>c\<in>set (collectors s). c_pc c = C_Done"
    by (intro filter_all) (simp add: done_collectors_def)
qed

lemma drained_workers:
  assumes "wired s" "cascade s" "8 \<le> phase (main_pc s)"
  shows "length (workers s) = NumOut" "\<forall>w\<in>set (workers s). w_pc w = W_Done"
proof -
  from assms(3) have pc: "main_pc s = M_Report \<or> main_pc s = M_Exited"
    by (cases "main_pc s") simp_all
  with wired_lengths(1)[OF assms(1)] show len: "length (workers s) = NumOut" by auto
  have "w_pc (workers s ! j) = W_Done" if j: "j < length (workers s)" for j
  proof -
    from j len drained_collectors[OF assms] have "j < length (collectors s)"
      and "c_pc (collectors s ! j) = C_Done"
      by simp_all
    with assms(2) have "chan_closed s (Outs j)"
      by (simp add: cascade_def collectors_close_def)
    with assms(2) j show ?thesis by (simp add: cascade_def workers_close_def)
  qed
  then show "\<forall>w\<in>set (workers s). w_pc w = W_Done"
    by (auto simp: in_set_conv_nth)
qed

lemma drained_generator:
  assumes "wired s" "cascade s" "8 \<le> phase (main_pc s)"
  shows "\<exists>g. gen s = Some g \<and> g_pc g = G_Done"
proof -
  from drained_workers[OF assms] have "0 < length (workers s)"
    and "w_pc (workers s ! 0) = W_Done"
    by (simp_all add: NumOut_def)
  with assms(2) have "chan_closed s ChIn"
    by (auto simp: cascade_def workers_close_def)
  moreover from assms(3) wired_exists(2)[OF assms(1)] obtain g where "gen s = Some g"
    by (cases "gen s") simp_all
  ultimately show ?thesis using assms(2) by (simp add: cascade_def gen_closes_def)
qed

lemma drained_tallies:
  assumes "reachable s" "main_pc s = M_Report"
  shows "count_m s = inputCount s" "sum_m s = inputSum s" "sum_list (amounts s) = inputCount s"
proof -
  from assms(1) have w: "wired s" and c: "cascade s"
    by (rule reachable_wired, rule reachable_cascade)
  from assms(2) have ph: "8 \<le> phase (main_pc s)" by simp
  from assms(1) have t: "tally_count s" "tally_sum s" "tally_amounts s"
    by (simp_all add: reachable_tally)
  from c assms(2) have buf: "chan_buf s ChOut = []" by (simp add: cascade_def main_drained_def)
  from drained_workers(2)[OF w c ph] have wz: "(\<Sum>w\<leftarrow>workers s. w_cnt (w_pc w)) = 0"
    "(\<Sum>w\<leftarrow>workers s. w_val (w_pc w)) = 0"
    by (simp_all add: sum_list_all_zero)
  from drained_collectors(2)[OF w c ph] have cz: "(\<Sum>c\<leftarrow>collectors s. c_cnt (c_pc c)) = 0"
    "(\<Sum>c\<leftarrow>collectors s. c_val (c_pc c)) = 0" "(\<Sum>c\<leftarrow>collectors s. c_inc (c_pc c)) = 0"
    by (simp_all add: sum_list_all_zero)
  from drained_generator[OF w c ph] have gz: "g_cnt (gen s) = 0" "g_val (gen s) = 0"
    by (auto simp: g_cnt_def g_val_def)
  from t(1) assms(2) wz cz gz buf show 1: "count_m s = inputCount s"
    by (simp add: tally_count_def held_count_def)
  from t(2) wz cz gz buf show "sum_m s = inputSum s"
    by (simp add: tally_sum_def held_sum_def)
  from t(3) cz buf 1 show "sum_list (amounts s) = inputCount s"
    by (simp add: tally_amounts_def)
qed

lemma run_reachable: "reachable s \<Longrightarrow> run es s = Some s' \<Longrightarrow> reachable s'"
proof (induction es arbitrary: s)
  case Nil
  then show ?case by simp
next
  case (Cons e es)
  from Cons.prems(2) obtain t where t: "exec e s = Some t" and r: "run es t = Some s'"
    by (auto split: option.splits)
  from Cons.prems(1) t have "reachable t" by (rule reachable.step)
  then show ?case using r by (rule Cons.IH)
qed

lemma run_init_reachable: "run es init = Some s \<Longrightarrow> reachable s"
  using reachable.start by (rule run_reachable)

section \<open>The record of a run\<close>

lemma permitted_exec:
  assumes "exec e s = Some s'" "wired s" "cascade s" "\<forall>a\<in>set (hist s). permitted a"
  shows "\<forall>a\<in>set (hist s'). permitted a"
proof -
  from assms(1-3) have np: "\<not> panicked s'" by (rule no_panic_exec)
  note len = wired_lengths(3,4)[OF assms(2)]
  from assms(1,2) show ?thesis
  proof (cases rule: exec_flat)
  qed (use np assms(4) len in \<open>auto simp: close_chan_open\<close>)
qed

lemma fresh_chIn: "wired s \<Longrightarrow> main_pc s = M_Make_ChIn \<Longrightarrow> chans s ChIn = None"
  using wired_exists(1)[of s ChIn] by (auto simp: made_def)

lemma fresh_outs: "wired s \<Longrightarrow> main_pc s = M_Workers i \<Longrightarrow> chans s (Outs i) = None"
  using wired_exists(1)[of s "Outs i"] by (auto simp: made_def)

lemma closes_once_exec:
  assumes "exec e s = Some s'" "wired s" "cascade s" "closes_once s"
  shows "closes_once s'"
proof -
  from assms(1-3) have np: "\<not> panicked s'" by (rule no_panic_exec)
  from assms(1,2) show ?thesis
  proof (cases rule: exec_flat)
    case Make_ChIn
    with assms(4) fresh_chIn[OF assms(2) Make_ChIn(2)] show ?thesis
      by (auto simp: closes_once_def chan_None)
  next
    case (Go_Worker i)
    with assms(4) fresh_outs[OF assms(2) Go_Worker(2)] show ?thesis
      by (auto simp: closes_once_def chan_None)
  next
    case Setup
    with assms(4) setup_no_chOut[OF assms(2) Setup(2)] show ?thesis
      by (auto simp: closes_once_def chan_None)
  qed (use np assms(4) in \<open>auto simp: closes_once_def closes_def close_chan_open chan_Some\<close>)
qed

lemma passed_simps [simp]:
  "passed c [] = []" "passed c (h @ h') = passed c h @ passed c h'"
  "passed c (a # h) = through c a @ passed c h"
  by (simp_all add: passed_def)

lemma taken_simps [simp]:
  "taken p c [] = []" "taken p c (h @ h') = taken p c h @ taken p c h'"
  "taken p c (a # h) = got_of p c a @ taken p c h"
  by (simp_all add: taken_def)

lemma quiet_snoc:
  "quiet (h @ [a]) \<longleftrightarrow> quiet h \<and> (\<forall>c. (\<exists>b\<in>set h. is_close c b) \<longrightarrow> \<not> uses_open c a)"
  by (induction h) auto

lemma closes_pos: "(\<exists>b\<in>set h. is_close c b) \<longleftrightarrow> 0 < closes c h"
  by (auto simp: closes_def filter_empty_conv)

lemma closed_in_hist:
  "closes_once s \<Longrightarrow> (\<exists>b\<in>set (hist s). is_close c b) \<longleftrightarrow> chan_closed s c"
  by (simp add: closes_pos closes_once_def)

lemma quiet_exec:
  assumes "exec e s = Some s'" "wired s" "cascade s" "closes_once s" "quiet (hist s)"
  shows "quiet (hist s')"
proof -
  from assms(1-3) have np: "\<not> panicked s'" by (rule no_panic_exec)
  note cl = closed_in_hist[OF assms(4)]
  from assms(1,2) show ?thesis
  proof (cases rule: exec_flat)
  qed (use np assms(5) cl in \<open>auto simp: close_chan_open quiet_snoc chan_Some
        simp flip: append_assoc\<close>)
qed

lemma lanes_count_exec:
  assumes "exec e s = Some s'" "wired s" "cascade s" "lanes_count s"
  shows "lanes_count s'"
proof -
  from assms(1-3) have np: "\<not> panicked s'" by (rule no_panic_exec)
  note len = wired_lengths(2,5)[OF assms(2)]
  from assms(1,2) show ?thesis
  proof (cases rule: exec_flat)
  qed (use np assms(4) len in \<open>auto simp: lanes_count_def close_chan_open nth_list_update
        nth_append split: if_splits\<close>)
qed

lemma calls_simps [simp]:
  "calls [] = []" "calls (h @ h') = calls h @ calls h'" "calls (a # h) = call_of a @ calls h"
  by (simp_all add: calls_def)

lemma naps_simps [simp]:
  "naps j [] = []" "naps j (h @ h') = naps j h @ naps j h'"
  "naps j (a # h) = nap_of j a @ naps j h"
  by (simp_all add: naps_def)

lemma triangle_Suc: "triangle (Suc n) = triangle n + Suc n"
proof -
  have "Suc n * (Suc n + 1) = n * (n + 1) + 2 * Suc n" by simp
  then show ?thesis unfolding triangle_def by (simp del: mult_Suc mult_Suc_right)
qed

lemma triangle_0 [simp]: "triangle 0 = 0"
  by (simp add: triangle_def)

lemma gen_conforms_exec:
  assumes "exec e s = Some s'" "wired s" "cascade s" "gen_conforms s"
  shows "gen_conforms s'"
proof -
  from assms(1-3) have np: "\<not> panicked s'" by (rule no_panic_exec)
  note ex = wired_exists(2)[OF assms(2)]
  from assms(1,2) show ?thesis
  proof (cases rule: exec_flat)
  qed (use np assms(4) ex in \<open>auto simp: gen_conforms_def close_chan_open triangle_Suc\<close>)
qed

lemma wpc_at_simps [simp]:
  "wpc_at (s\<lparr>ctx_done := z0\<rparr>) = wpc_at s"
  "wpc_at (s\<lparr>inputSum := z1\<rparr>) = wpc_at s"
  "wpc_at (s\<lparr>inputCount := z2\<rparr>) = wpc_at s"
  "wpc_at (s\<lparr>amounts := z3\<rparr>) = wpc_at s"
  "wpc_at (s\<lparr>wg := z4\<rparr>) = wpc_at s"
  "wpc_at (s\<lparr>main_pc := z5\<rparr>) = wpc_at s"
  "wpc_at (s\<lparr>count_m := z6\<rparr>) = wpc_at s"
  "wpc_at (s\<lparr>sum_m := z7\<rparr>) = wpc_at s"
  "wpc_at (s\<lparr>gen := z8\<rparr>) = wpc_at s"
  "wpc_at (s\<lparr>collectors := z9\<rparr>) = wpc_at s"
  "wpc_at (s\<lparr>waiter := z10\<rparr>) = wpc_at s"
  "wpc_at (s\<lparr>panicked := z11\<rparr>) = wpc_at s"
  "wpc_at (s\<lparr>stdout := z12\<rparr>) = wpc_at s"
  "wpc_at (s\<lparr>result := z13\<rparr>) = wpc_at s"
  "wpc_at (s\<lparr>hist := z14\<rparr>) = wpc_at s"
  "wpc_at (s\<lparr>chans := z15\<rparr>) = wpc_at s"
  "wpc_at (set_gpc pc s) = wpc_at s"
  "wpc_at (set_cpc k q s) = wpc_at s"
  "wpc_at (log a s) = wpc_at s"
  "wpc_at (panic s) = wpc_at s"
  by (simp_all add: wpc_at_def fun_eq_iff panic_def)

lemma wpc_at_set_wpc [simp]:
  "j < length (workers s) \<Longrightarrow> wpc_at (set_wpc j pc s) = (wpc_at s)(j := pc)"
  by (auto simp: wpc_at_def fun_eq_iff)

lemma wpc_at_append [simp]:
  "w_pc w = W_Recv \<Longrightarrow> wpc_at (s\<lparr>workers := workers s @ [w]\<rparr>) = wpc_at s"
  by (auto simp: wpc_at_def fun_eq_iff nth_append)

lemma wpc_at_nth: "j < length (workers s) \<Longrightarrow> w_pc (workers s ! j) = wpc_at s j"
  by (simp add: wpc_at_def)

lemma worker_conforms_exec:
  assumes "exec e s = Some s'" "wired s" "cascade s" "worker_conforms s"
  shows "worker_conforms s'"
proof -
  from assms(1-3) have np: "\<not> panicked s'" by (rule no_panic_exec)
  from assms(1,2) show ?thesis
  proof (cases rule: exec_flat)
    case (Go_Worker i)
    then have "wpc_at s' = wpc_at s" "hist s' = hist s"
      by (auto simp: wpc_at_def fun_eq_iff nth_append)
    with assms(4) show ?thesis by (simp add: worker_conforms_def)
  qed (use np assms(4) in \<open>auto simp: worker_conforms_def close_chan_open wpc_at_nth\<close>)
qed

lemma sint_of_nat_small:
  assumes "k < 2 ^ 63"
  shows "sint (of_nat k :: int64) = int k"
proof -
  have "sint (of_nat k :: int64) = signed_take_bit 63 (int k)"
    by (simp add: signed_of_nat)
  also from assms have "\<dots> = int k"
    by (intro signed_take_bit_int_eq_self) simp_all
  finally show ?thesis .
qed

lemma hist_init [simp]: "hist init = []"
  by (simp add: init_def)

lemma trace_init:
  "closes_once init" "lanes_count init" "gen_conforms init" "worker_conforms init"
  by (simp_all add: closes_once_def lanes_count_def gen_conforms_def worker_conforms_def
      closes_def wpc_at_def init_def chan_closed_def)

lemma reachable_permitted: "reachable s \<Longrightarrow> \<forall>a\<in>set (hist s). permitted a"
proof (induction rule: reachable.induct)
  case start
  show ?case by simp
next
  case (step s e s')
  from step(1) have "wired s" "cascade s" by (rule reachable_wired, rule reachable_cascade)
  with step(2) show ?case using step(3) by (rule permitted_exec)
qed

lemma reachable_closes_once: "reachable s \<Longrightarrow> closes_once s"
proof (induction rule: reachable.induct)
  case start
  show ?case by (rule trace_init)
next
  case (step s e s')
  from step(1) have "wired s" "cascade s" by (rule reachable_wired, rule reachable_cascade)
  with step(2) show ?case using step(3) by (rule closes_once_exec)
qed

lemma reachable_quiet: "reachable s \<Longrightarrow> quiet (hist s)"
proof (induction rule: reachable.induct)
  case start
  show ?case by simp
next
  case (step s e s')
  from step(1) have "wired s" "cascade s" "closes_once s"
    by (rule reachable_wired, rule reachable_cascade, rule reachable_closes_once)
  with step(2) show ?case using step(3) by (rule quiet_exec)
qed

lemma reachable_lanes_count: "reachable s \<Longrightarrow> lanes_count s"
proof (induction rule: reachable.induct)
  case start
  show ?case by (rule trace_init)
next
  case (step s e s')
  from step(1) have "wired s" "cascade s" by (rule reachable_wired, rule reachable_cascade)
  with step(2) show ?case using step(3) by (rule lanes_count_exec)
qed

lemma reachable_gen_conforms: "reachable s \<Longrightarrow> gen_conforms s"
proof (induction rule: reachable.induct)
  case start
  show ?case by (rule trace_init)
next
  case (step s e s')
  from step(1) have "wired s" "cascade s" by (rule reachable_wired, rule reachable_cascade)
  with step(2) show ?case using step(3) by (rule gen_conforms_exec)
qed

lemma reachable_worker_conforms: "reachable s \<Longrightarrow> worker_conforms s"
proof (induction rule: reachable.induct)
  case start
  show ?case by (rule trace_init)
next
  case (step s e s')
  from step(1) have "wired s" "cascade s" by (rule reachable_wired, rule reachable_cascade)
  with step(2) show ?case using step(3) by (rule worker_conforms_exec)
qed

lemma map_sint_upt:
  assumes "m < 2 ^ 63"
  shows "map sint (map of_nat [1..<Suc m] :: int64 list) = map int [1..<Suc m]"
proof -
  have "sint (of_nat k :: int64) = int k" if "k \<in> set [1..<Suc m]" for k
  proof -
    from that have "k \<le> m" by auto
    from this assms have "k < 2 ^ 63" by (rule le_less_trans)
    then show ?thesis by (rule sint_of_nat_small)
  qed
  then show ?thesis by (simp del: upt_Suc)
qed

lemma closed_chOut_collectors:
  assumes "wired s" "cascade s" "chan_closed s ChOut"
  shows "waiter s = Some B_Done" "length (collectors s) = NumOut"
    "\<forall>c\<in>set (collectors s). c_pc c = C_Done"
proof -
  from assms(2,3) show b: "waiter s = Some B_Done" by (simp add: cascade_def waiter_closes_def)
  with wired_exists(3)[OF assms(1)] have ph: "7 \<le> phase (main_pc s)" by simp
  with wired_lengths(2)[OF assms(1)] show len: "length (collectors s) = NumOut"
    by (simp add: started_collectors_full)
  from assms(2) b have "wg s = 0" by (simp add: cascade_def waiter_closes_def)
  moreover from assms(2) ph have "wg s = int NumOut - int (done_collectors s)"
    by (simp add: cascade_def wg_counts_def)
  ultimately have "done_collectors s = NumOut" by simp
  with len show "\<forall>c\<in>set (collectors s). c_pc c = C_Done"
    by (intro filter_all) (simp add: done_collectors_def)
qed

lemma report_all_closed:
  assumes "wired s" "cascade s" "main_pc s = M_Report"
  shows "chan_closed s ChIn" "\<forall>j<NumOut. chan_closed s (Outs j)" "chan_closed s ChOut"
proof -
  from assms(3) have ph: "8 \<le> phase (main_pc s)" by simp
  from drained_generator[OF assms(1,2) ph] assms(2) show "chan_closed s ChIn"
    by (auto simp: cascade_def gen_closes_def)
  from drained_workers[OF assms(1,2) ph] assms(2) show "\<forall>j<NumOut. chan_closed s (Outs j)"
    by (simp add: cascade_def workers_close_def)
  from assms(2,3) show "chan_closed s ChOut" by (simp add: cascade_def main_drained_def)
qed

lemma chOut_fifo_exec:
  assumes "exec e s = Some s'" "wired s" "cascade s" "chOut_fifo s"
  shows "chOut_fifo s'"
proof -
  from assms(1-3) have np: "\<not> panicked s'" by (rule no_panic_exec)
  from assms(1,2) show ?thesis
  proof (cases rule: exec_flat)
    case Setup
    with assms(4) setup_no_chOut[OF assms(2) Setup(2)] show ?thesis
      by (simp add: chOut_fifo_def chan_None)
  qed (use np assms(4) in \<open>auto simp: chOut_fifo_def chan_Some close_chan_open\<close>)
qed

lemma reachable_chOut_fifo: "reachable s \<Longrightarrow> chOut_fifo s"
proof (induction rule: reachable.induct)
  case start
  show ?case by (simp add: chOut_fifo_def init_def chan_buf_def)
next
  case (step s e s')
  from step(1) have "wired s" "cascade s" by (rule reachable_wired, rule reachable_cascade)
  with step(2) show ?case using step(3) by (rule chOut_fifo_exec)
qed

lemma collector_send_room:
  assumes "wired s" "cascade s" "main_pc s \<noteq> M_Exited" "k < length (collectors s)"
    "c_pc (collectors s ! k) = C_Send v"
  shows "exec (Step (P_Collector k)) s = None \<longleftrightarrow> length (chan_buf s ChOut) = NumOut"
proof -
  from assms(1,4) have "5 \<le> phase (main_pc s)" by (rule collectors_phase)
  with assms(1) obtain ch where ch: "chans s ChOut = Some ch" "ch_cap ch = NumOut"
    "length (ch_buf ch) \<le> NumOut"
    by (rule wired_chOut)
  from assms(2) have wc: "wg_counts s" by (simp add: cascade_def)
  have "0 < wg s" by (rule wg_positive[OF assms(1) wc assms(4)]) (simp add: assms(5))
  with assms(2) ch(1) have nc: "\<not> ch_closed ch"
    by (auto simp: cascade_def waiter_closes_def chan_closed_def)
  from assms(2,3) have "\<not> halted s" by (simp add: halted_def cascade_def)
  with assms(4,5) ch nc show ?thesis
    by (auto simp: step_chan_def chan_buf_def)
qed

section \<open>End-to-end accounting\<close>

text \<open>
  C1. In every run that reaches the report (\<open>main\<close> has left its \<open>range\<close> loop and is about
  to print), the number of values \<open>main\<close> has taken from \<open>chOut\<close> equals \<open>inputCount\<close>, their
  sum equals \<open>inputSum\<close>, and the lane counters \<open>amounts\<close> add up to \<open>inputCount\<close>. The
  equalities are those of the program's \<open>int64\<close> variables.
\<close>

theorem accounting_at_report:
  assumes "run es init = Some s" "main_pc s = M_Report"
  shows "count_m s = inputCount s \<and> sum_m s = inputSum s \<and> sum_list (amounts s) = inputCount s"
  using drained_tallies[OF run_init_reachable[OF assms(1)] assms(2)] by simp

theorem accounting_at_report_witness:
  "run one_item init \<noteq> None \<and> main_pc (the (run one_item init)) = M_Report \<and>
   count_m (the (run one_item init)) = inputCount (the (run one_item init)) \<and>
   sum_m (the (run one_item init)) = inputSum (the (run one_item init)) \<and>
   sum_list (amounts (the (run one_item init))) = inputCount (the (run one_item init)) \<and>
   inputCount (the (run one_item init)) = 1"
proof -
  have r: "run one_item init \<noteq> None" by code_simp
  then have s: "run one_item init = Some (the (run one_item init))" by simp
  have pc: "main_pc (the (run one_item init)) = M_Report" by code_simp
  have n: "inputCount (the (run one_item init)) = 1" by code_simp
  from accounting_at_report[OF s pc] r pc n show ?thesis by simp
qed

section \<open>Lanes\<close>

text \<open>
  C3. Collector \<open>k\<close> reads the channel \<open>outs[k]\<close> and no other: every receive by collector
  \<open>k\<close> is from \<open>outs[k]\<close>, and every receive from \<open>outs[k]\<close>, also the one that reports the
  channel closed, is by collector \<open>k\<close>, so no worker's channel has two readers. Only worker
  \<open>k\<close> sends on \<open>outs[k]\<close>, and the collector has received what was sent. The counter
  \<open>amounts[k]\<close> is the number of values that went through \<open>outs[k]\<close>, less the one the
  collector holds or has sent on and not yet counted; when the collector has returned it
  is that number.
\<close>

theorem lane_ownership:
  assumes "run es init = Some s" "k < length (collectors s)"
  shows "c_c (collectors s ! k) = Outs k \<and> c_i (collectors s ! k) = k \<and>
    (\<forall>p c v. Received p c v \<in> set (hist s) \<longrightarrow> (p = P_Collector k \<longleftrightarrow> c = Outs k)) \<and>
    (\<forall>p c. Saw_Closed p c \<in> set (hist s) \<longrightarrow> (p = P_Collector k \<longleftrightarrow> c = Outs k)) \<and>
    (\<forall>p v. Sent p (Outs k) v \<in> set (hist s) \<longrightarrow> p = P_Worker k) \<and>
    taken (P_Collector k) (Outs k) (hist s) = passed (Outs k) (hist s) \<and>
    of_nat (length (passed (Outs k) (hist s))) =
      amounts s ! k + c_cnt (c_pc (collectors s ! k)) + c_inc (c_pc (collectors s ! k)) \<and>
    (c_pc (collectors s ! k) = C_Done \<longrightarrow>
       amounts s ! k = of_nat (length (passed (Outs k) (hist s))))"
proof -
  from assms(1) have r: "reachable s" by (rule run_init_reachable)
  then have w: "wired s" by (rule reachable_wired)
  note perm = reachable_permitted[OF r]
  from reachable_lanes_count[OF r] assms(2)
  have cnt: "of_nat (length (passed (Outs k) (hist s))) =
      amounts s ! k + c_cnt (c_pc (collectors s ! k)) + c_inc (c_pc (collectors s ! k))"
    and tk: "taken (P_Collector k) (Outs k) (hist s) = passed (Outs k) (hist s)"
    unfolding lanes_count_def by (metis, blast)
  have rc: "p = P_Collector k \<longleftrightarrow> c = Outs k" if "Received p c v \<in> set (hist s)" for p c v
    using perm that by (cases p) force+
  have sc: "p = P_Collector k \<longleftrightarrow> c = Outs k" if "Saw_Closed p c \<in> set (hist s)" for p c
    using perm that by (cases p) force+
  have sn: "p = P_Worker k" if "Sent p (Outs k) v \<in> set (hist s)" for p v
    using perm that by (cases p) force+
  from cnt have "c_pc (collectors s ! k) = C_Done \<longrightarrow>
      amounts s ! k = of_nat (length (passed (Outs k) (hist s)))"
    by simp
  with wired_collector(2,3)[OF w assms(2)] cnt tk rc sc sn show ?thesis by blast
qed

theorem lane_ownership_witness:
  "run three_items init \<noteq> None \<and> 2 < length (collectors (the (run three_items init))) \<and>
   c_c (collectors (the (run three_items init)) ! 2) = Outs 2 \<and>
   passed (Outs 2) (hist (the (run three_items init))) = [2] \<and>
   taken (P_Collector 2) (Outs 2) (hist (the (run three_items init))) = [2] \<and>
   amounts (the (run three_items init)) = [1, 0, 1, 0, 1] \<and>
   amounts (the (run three_items init)) ! 2 =
     of_nat (length (passed (Outs 2) (hist (the (run three_items init)))))"
proof -
  have r: "run three_items init \<noteq> None" by code_simp
  then have s: "run three_items init = Some (the (run three_items init))" by simp
  have k: "2 < length (collectors (the (run three_items init)))" by code_simp
  have d: "c_pc (collectors (the (run three_items init)) ! 2) = C_Done" by code_simp
  have p: "passed (Outs 2) (hist (the (run three_items init))) = [2]" by code_simp
  have a: "amounts (the (run three_items init)) = [1, 0, 1, 0, 1]" by code_simp
  from lane_ownership[OF s k] d have "c_c (collectors (the (run three_items init)) ! 2) = Outs 2"
    "taken (P_Collector 2) (Outs 2) (hist (the (run three_items init))) =
      passed (Outs 2) (hist (the (run three_items init)))"
    "amounts (the (run three_items init)) ! 2 =
      of_nat (length (passed (Outs 2) (hist (the (run three_items init)))))"
    by blast+
  with r k p a show ?thesis by simp
qed

section \<open>The generator\<close>

text \<open>
  C4. The values sent on \<open>chIn\<close>, all by the generator, are 1, 2, ..., \<open>m\<close> in this order
  (as \<open>int64\<close>; as signed integers too while \<open>m\<close> is below \<open>2^63\<close>). The values \<open>fn\<close> was
  called with are the same list, without its last element exactly while the generator is
  between a send and the call of \<open>fn\<close>; \<open>current\<close> is the value just sent until it is
  incremented after \<open>fn\<close>, and the next value to send otherwise.
\<close>

theorem generator_sequence:
  assumes "run es init = Some s" "gen s = Some g" "m = length (passed ChIn (hist s))"
  shows "passed ChIn (hist s) = map of_nat [1..<Suc m] \<and>
    passed ChIn (hist s) = calls (hist s) @ (if g_pc g = G_Fn_Sum then [g_current g] else []) \<and>
    g_current g =
      (if g_pc g = G_Fn_Sum \<or> g_pc g = G_Fn_Count \<or> g_pc g = G_Incr then of_nat m
       else of_nat (Suc m)) \<and>
    (\<forall>p v. Sent p ChIn v \<in> set (hist s) \<longrightarrow> p = P_Generator) \<and>
    (m < 2 ^ 63 \<longrightarrow> map sint (passed ChIn (hist s)) = map int [1..<Suc m])"
proof -
  from assms(1) have r: "reachable s" by (rule run_init_reachable)
  note perm = reachable_permitted[OF r]
  let ?n = "length (calls (hist s))"
  from reachable_gen_conforms[OF r] assms(2)
  have c: "calls (hist s) = map of_nat [1..<Suc ?n]"
    and p: "passed ChIn (hist s) =
      calls (hist s) @ (if g_pc g = G_Fn_Sum then [g_current g] else [])"
    and cur: "g_current g =
      (if g_pc g = G_Fn_Count \<or> g_pc g = G_Incr then of_nat ?n else of_nat (Suc ?n))"
    by (simp_all add: gen_conforms_def)
  from p assms(3) have m: "m = (if g_pc g = G_Fn_Sum then Suc ?n else ?n)" by simp
  have seq: "passed ChIn (hist s) = map of_nat [1..<Suc m]"
  proof (cases "g_pc g = G_Fn_Sum")
    case True
    with cur have "g_current g = of_nat (Suc ?n)" by simp
    with True p m have "passed ChIn (hist s) = calls (hist s) @ [of_nat (Suc ?n)]"
      and "m = Suc ?n"
      by simp_all
    with c show ?thesis by simp
  next
    case False
    with p m c show ?thesis by simp
  qed
  from cur m have cur': "g_current g =
      (if g_pc g = G_Fn_Sum \<or> g_pc g = G_Fn_Count \<or> g_pc g = G_Incr then of_nat m
       else of_nat (Suc m))"
    by auto
  have sn: "p = P_Generator" if "Sent p ChIn v \<in> set (hist s)" for p v
    using perm that by (cases p) force+
  have "m < 2 ^ 63 \<longrightarrow> map sint (passed ChIn (hist s)) = map int [1..<Suc m]"
  proof
    assume "m < 2 ^ 63"
    then have "map sint (map of_nat [1..<Suc m] :: int64 list) = map int [1..<Suc m]"
      by (rule map_sint_upt)
    with seq show "map sint (passed ChIn (hist s)) = map int [1..<Suc m]" by (simp only:)
  qed
  with seq p cur' sn show ?thesis by blast
qed

theorem generator_sequence_witness:
  "run three_items init \<noteq> None \<and>
   gen (the (run three_items init)) = Some \<lparr>g_pc = G_Done, g_ch = ChIn, g_current = 4\<rparr> \<and>
   length (passed ChIn (hist (the (run three_items init)))) = 3 \<and>
   passed ChIn (hist (the (run three_items init))) = map of_nat [1..<Suc 3] \<and>
   passed ChIn (hist (the (run three_items init))) = calls (hist (the (run three_items init))) \<and>
   map sint (passed ChIn (hist (the (run three_items init)))) = map int [1..<Suc 3]"
proof -
  have r: "run three_items init \<noteq> None" by code_simp
  then have s: "run three_items init = Some (the (run three_items init))" by simp
  have g: "gen (the (run three_items init)) = Some \<lparr>g_pc = G_Done, g_ch = ChIn, g_current = 4\<rparr>"
    by code_simp
  have m: "3 = length (passed ChIn (hist (the (run three_items init))))" by code_simp
  have c: "calls (hist (the (run three_items init))) = [1, 2, 3]" by code_simp
  note inst = generator_sequence[OF s g m]
  from inst have 1: "passed ChIn (hist (the (run three_items init))) = map of_nat [1..<Suc 3]"
    by blast
  from inst have "passed ChIn (hist (the (run three_items init))) =
      calls (hist (the (run three_items init))) @
      (if g_pc \<lparr>g_pc = G_Done, g_ch = ChIn, g_current = 4\<rparr> = G_Fn_Sum
       then [g_current \<lparr>g_pc = G_Done, g_ch = ChIn, g_current = 4\<rparr>] else [])"
    by blast
  then have 2: "passed ChIn (hist (the (run three_items init))) =
      calls (hist (the (run three_items init)))"
    by simp
  from inst have "(3::nat) < 2 ^ 63 \<longrightarrow>
      map sint (passed ChIn (hist (the (run three_items init)))) = map int [1..<Suc 3]"
    by blast
  then have 3: "map sint (passed ChIn (hist (the (run three_items init)))) = map int [1..<Suc 3]"
    by simp
  from r g m[symmetric] 1 2 3 show ?thesis by (intro conjI)
qed

text \<open>
  C9. When the generator returns, having sent \<open>n\<close> values, \<open>inputCount\<close> is \<open>n\<close> and
  \<open>inputSum\<close> is \<open>n (n + 1) / 2\<close> as \<open>int64\<close>, so twice \<open>inputSum\<close> is
  \<open>inputCount * (inputCount + 1)\<close>; while \<open>n (n + 1) / 2\<close> is below \<open>2^63\<close> the equation
  \<open>inputSum = inputCount * (inputCount + 1) / 2\<close> holds for the signed values of the two
  variables.
\<close>

theorem tally_closed_form:
  assumes "run es init = Some s" "gen s = Some g" "g_pc g = G_Close \<or> g_pc g = G_Done"
    "main_pc s \<noteq> M_Exited" "n = length (passed ChIn (hist s))"
  shows "inputCount s = of_nat n \<and> inputSum s = of_nat (n * (n + 1) div 2) \<and>
    2 * inputSum s = inputCount s * (inputCount s + 1) \<and>
    (n * (n + 1) div 2 < 2 ^ 63 \<longrightarrow>
       sint (inputCount s) = int n \<and>
       sint (inputSum s) = sint (inputCount s) * (sint (inputCount s) + 1) div 2)"
proof -
  from assms(1) have r: "reachable s" by (rule run_init_reachable)
  from reachable_gen_conforms[OF r] assms(2-5)
  have cnt: "inputCount s = of_nat n" and sm: "inputSum s = of_nat (triangle n)"
    by (auto simp: gen_conforms_def)
  have even: "2 * triangle n = n * (n + 1)"
    unfolding triangle_def by simp
  have "2 * inputSum s = of_nat (2 * triangle n)" by (simp add: sm)
  also have "\<dots> = of_nat (n * (n + 1))" by (simp only: even)
  also have "\<dots> = inputCount s * (inputCount s + 1)" by (simp add: cnt algebra_simps)
  finally have dbl: "2 * inputSum s = inputCount s * (inputCount s + 1)" .
  have small: "sint (inputCount s) = int n \<and>
      sint (inputSum s) = sint (inputCount s) * (sint (inputCount s) + 1) div 2"
    if b: "n * (n + 1) div 2 < 2 ^ 63"
  proof -
    have "n \<le> n * (n + 1) div 2" by (cases n) simp_all
    with b have nb: "n < 2 ^ 63" by simp
    from nb have 1: "sint (inputCount s) = int n" by (simp add: cnt sint_of_nat_small)
    from b have 2: "sint (inputSum s) = int (n * (n + 1) div 2)"
      by (simp add: sm triangle_def sint_of_nat_small)
    have "int (n * (n + 1) div 2) = int n * (int n + 1) div 2"
      by (simp add: zdiv_int algebra_simps)
    with 1 2 show ?thesis by simp
  qed
  from cnt sm dbl small show ?thesis by (simp add: triangle_def)
qed

theorem tally_closed_form_witness:
  "run three_items init \<noteq> None \<and>
   gen (the (run three_items init)) = Some \<lparr>g_pc = G_Done, g_ch = ChIn, g_current = 4\<rparr> \<and>
   main_pc (the (run three_items init)) \<noteq> M_Exited \<and>
   length (passed ChIn (hist (the (run three_items init)))) = 3 \<and>
   inputCount (the (run three_items init)) = 3 \<and> inputSum (the (run three_items init)) = 6 \<and>
   sint (inputSum (the (run three_items init))) =
     sint (inputCount (the (run three_items init))) *
       (sint (inputCount (the (run three_items init))) + 1) div 2"
proof -
  have r: "run three_items init \<noteq> None" by code_simp
  then have s: "run three_items init = Some (the (run three_items init))" by simp
  have g: "gen (the (run three_items init)) = Some \<lparr>g_pc = G_Done, g_ch = ChIn, g_current = 4\<rparr>"
    by code_simp
  have pc: "main_pc (the (run three_items init)) \<noteq> M_Exited" by code_simp
  have m: "3 = length (passed ChIn (hist (the (run three_items init))))" by code_simp
  have d: "g_pc \<lparr>g_pc = G_Done, g_ch = ChIn, g_current = 4\<rparr> = G_Close \<or>
      g_pc \<lparr>g_pc = G_Done, g_ch = ChIn, g_current = 4\<rparr> = G_Done"
    by simp
  note inst = tally_closed_form[OF s g d pc m]
  from inst have 1: "inputCount (the (run three_items init)) = 3" by simp
  from inst have 2: "inputSum (the (run three_items init)) = 6" by simp
  from inst have "(3::nat) * (3 + 1) div 2 < 2 ^ 63 \<longrightarrow>
      sint (inputCount (the (run three_items init))) = int 3 \<and>
      sint (inputSum (the (run three_items init))) =
      sint (inputCount (the (run three_items init))) *
        (sint (inputCount (the (run three_items init))) + 1) div 2"
    by blast
  then have 3: "sint (inputSum (the (run three_items init))) =
      sint (inputCount (the (run three_items init))) *
        (sint (inputCount (the (run three_items init))) + 1) div 2"
    by simp
  from r g pc m[symmetric] 1 2 3 show ?thesis by (intro conjI)
qed

section \<open>Closing the channels\<close>

text \<open>
  C5. No run panics, so no closed channel is closed again or sent on. In the record of a
  run each channel has one close if it is closed now and none otherwise; \<open>chIn\<close> is closed
  only by the generator, \<open>outs[j]\<close> only by worker \<open>j\<close>, \<open>chOut\<close> only by the goroutine that
  waits for the collectors; after its close nothing is sent on a channel and it is not
  closed again. \<open>chIn\<close> is closed exactly when the generator has returned, \<open>outs[j]\<close>
  exactly when worker \<open>j\<close> has returned, which it does only after its receive reported
  \<open>chIn\<close> closed; when \<open>chOut\<close> is closed all \<open>NumOut\<close> collectors have returned. When \<open>main\<close>
  reaches its report every channel is closed.
\<close>

theorem channels_closed_once:
  assumes "run es init = Some s"
  shows "\<not> panicked s \<and>
    (\<forall>c. closes c (hist s) = (if chan_closed s c then 1 else 0)) \<and>
    (\<forall>p c. Closed p c \<in> set (hist s) \<longrightarrow> may_close p c) \<and>
    quiet (hist s) \<and>
    (\<forall>g. gen s = Some g \<longrightarrow> (chan_closed s ChIn \<longleftrightarrow> g_pc g = G_Done)) \<and>
    (\<forall>j<length (workers s).
       (chan_closed s (Outs j) \<longleftrightarrow> w_pc (workers s ! j) = W_Done) \<and>
       (w_pc (workers s ! j) = W_Close \<or> w_pc (workers s ! j) = W_Done \<longrightarrow>
          chan_closed s ChIn \<and> Saw_Closed (P_Worker j) ChIn \<in> set (hist s))) \<and>
    (chan_closed s ChOut \<longrightarrow>
       waiter s = Some B_Done \<and> length (collectors s) = NumOut \<and>
       (\<forall>c\<in>set (collectors s). c_pc c = C_Done)) \<and>
    (main_pc s = M_Report \<longrightarrow>
       chan_closed s ChIn \<and> (\<forall>j<NumOut. chan_closed s (Outs j)) \<and> chan_closed s ChOut)"
proof -
  from assms have r: "reachable s" by (rule run_init_reachable)
  then have w: "wired s" and c: "cascade s" by (rule reachable_wired, rule reachable_cascade)
  from c have 1: "\<not> panicked s" by (simp add: cascade_def)
  from reachable_closes_once[OF r]
  have 2: "\<forall>c. closes c (hist s) = (if chan_closed s c then 1 else 0)"
    by (simp add: closes_once_def)
  from reachable_permitted[OF r]
  have 3: "\<forall>p c. Closed p c \<in> set (hist s) \<longrightarrow> may_close p c" by force
  note 4 = reachable_quiet[OF r]
  from c have 5: "\<forall>g. gen s = Some g \<longrightarrow> (chan_closed s ChIn \<longleftrightarrow> g_pc g = G_Done)"
    by (auto simp: cascade_def gen_closes_def)
  have 6: "(chan_closed s (Outs j) \<longleftrightarrow> w_pc (workers s ! j) = W_Done) \<and>
       (w_pc (workers s ! j) = W_Close \<or> w_pc (workers s ! j) = W_Done \<longrightarrow>
          chan_closed s ChIn \<and> Saw_Closed (P_Worker j) ChIn \<in> set (hist s))"
    if j: "j < length (workers s)" for j
  proof -
    from reachable_worker_conforms[OF r]
    have "Saw_Closed (P_Worker j) ChIn \<in> set (hist s) \<longleftrightarrow>
        wpc_at s j = W_Close \<or> wpc_at s j = W_Done"
      unfolding worker_conforms_def by blast
    with j have "Saw_Closed (P_Worker j) ChIn \<in> set (hist s) \<longleftrightarrow>
        w_pc (workers s ! j) = W_Close \<or> w_pc (workers s ! j) = W_Done"
      by (simp add: wpc_at_def)
    moreover from c j have "(chan_closed s (Outs j) \<longleftrightarrow> w_pc (workers s ! j) = W_Done) \<and>
        (w_pc (workers s ! j) = W_Close \<or> w_pc (workers s ! j) = W_Done \<longrightarrow> chan_closed s ChIn)"
      by (simp add: cascade_def workers_close_def)
    ultimately show ?thesis by blast
  qed
  from closed_chOut_collectors[OF w c]
  have 7: "chan_closed s ChOut \<longrightarrow>
       waiter s = Some B_Done \<and> length (collectors s) = NumOut \<and>
       (\<forall>c\<in>set (collectors s). c_pc c = C_Done)"
    by blast
  from report_all_closed[OF w c]
  have 8: "main_pc s = M_Report \<longrightarrow>
       chan_closed s ChIn \<and> (\<forall>j<NumOut. chan_closed s (Outs j)) \<and> chan_closed s ChOut"
    by blast
  from 1 2 3 4 5 6 7 8 show ?thesis by blast
qed

theorem channels_closed_once_witness:
  "run three_items init \<noteq> None \<and> \<not> panicked (the (run three_items init)) \<and>
   closes ChIn (hist (the (run three_items init))) = 1 \<and>
   closes (Outs 3) (hist (the (run three_items init))) = 1 \<and>
   closes ChOut (hist (the (run three_items init))) = 1 \<and>
   quiet (hist (the (run three_items init))) \<and>
   chan_closed (the (run three_items init)) ChOut"
proof -
  have r: "run three_items init \<noteq> None" by code_simp
  then have s: "run three_items init = Some (the (run three_items init))" by simp
  have c: "chan_closed (the (run three_items init)) ChIn"
    "chan_closed (the (run three_items init)) (Outs 3)"
    "chan_closed (the (run three_items init)) ChOut"
    by code_simp+
  note inst = channels_closed_once[OF s]
  from inst have 1: "\<not> panicked (the (run three_items init))" by blast
  from inst have 2: "\<forall>c. closes c (hist (the (run three_items init))) =
      (if chan_closed (the (run three_items init)) c then 1 else 0)"
    by blast
  from inst have 3: "quiet (hist (the (run three_items init)))" by blast
  from 2 c have "closes ChIn (hist (the (run three_items init))) = 1"
    "closes (Outs 3) (hist (the (run three_items init))) = 1"
    "closes ChOut (hist (the (run three_items init))) = 1"
    by simp_all
  with r 1 3 c(3) show ?thesis by (intro conjI)
qed

section \<open>The workers\<close>



section \<open>The capacities of the channels\<close>

text \<open>
  C8. \<open>NumOut\<close> is 5. \<open>chOut\<close> has capacity \<open>NumOut\<close> and never holds more values than that:
  a collector at its send cannot proceed exactly when \<open>chOut\<close> holds \<open>NumOut\<close> values.
  \<open>chIn\<close> and every \<open>outs[j]\<close> have capacity 0 and never hold a value. Only collectors
  send on \<open>chOut\<close> and only \<open>main\<close> receives from it: the values \<open>main\<close> has received,
  followed by the buffered ones, are the values the collectors have sent.
\<close>

theorem channel_capacities:
  assumes "run es init = Some s"
  shows "NumOut = 5 \<and>
    (\<forall>ch. chans s ChOut = Some ch \<longrightarrow> ch_cap ch = NumOut \<and> length (ch_buf ch) \<le> NumOut) \<and>
    (\<forall>ch. chans s ChIn = Some ch \<longrightarrow> ch_cap ch = 0 \<and> ch_buf ch = []) \<and>
    (\<forall>j ch. chans s (Outs j) = Some ch \<longrightarrow> ch_cap ch = 0 \<and> ch_buf ch = []) \<and>
    (\<forall>k v. k < length (collectors s) \<longrightarrow> c_pc (collectors s ! k) = C_Send v \<longrightarrow>
       main_pc s \<noteq> M_Exited \<longrightarrow>
       (exec (Step (P_Collector k)) s = None \<longleftrightarrow> length (chan_buf s ChOut) = NumOut)) \<and>
    (\<forall>p v. Sent p ChOut v \<in> set (hist s) \<longrightarrow> (\<exists>k<NumOut. p = P_Collector k)) \<and>
    (\<forall>p v. Received p ChOut v \<in> set (hist s) \<longrightarrow> p = P_Main) \<and>
    (\<forall>p. Saw_Closed p ChOut \<in> set (hist s) \<longrightarrow> p = P_Main) \<and>
    taken P_Main ChOut (hist s) @ chan_buf s ChOut = passed ChOut (hist s)"
proof -
  from assms have r: "reachable s" by (rule run_init_reachable)
  then have w: "wired s" and c: "cascade s" by (rule reachable_wired, rule reachable_cascade)
  note perm = reachable_permitted[OF r]
  have 1: "ch_cap ch = NumOut \<and> length (ch_buf ch) \<le> NumOut" if "chans s ChOut = Some ch" for ch
    using wired_chan[OF w that] by simp
  have 2: "ch_cap ch = 0 \<and> ch_buf ch = []" if "chans s ChIn = Some ch" for ch
    using wired_chan[OF w that] by simp
  have 3: "ch_cap ch = 0 \<and> ch_buf ch = []" if "chans s (Outs j) = Some ch" for j ch
    using wired_chan[OF w that] by simp
  have 4: "\<exists>k<NumOut. p = P_Collector k" if "Sent p ChOut v \<in> set (hist s)" for p v
    using perm that by (cases p) force+
  have 5: "p = P_Main" if "Received p ChOut v \<in> set (hist s)" for p v
    using perm that by (cases p) force+
  have 6: "p = P_Main" if "Saw_Closed p ChOut \<in> set (hist s)" for p
    using perm that by (cases p) force+
  from reachable_chOut_fifo[OF r]
  have 7: "taken P_Main ChOut (hist s) @ chan_buf s ChOut = passed ChOut (hist s)"
    by (simp add: chOut_fifo_def)
  have 8: "exec (Step (P_Collector k)) s = None \<longleftrightarrow> length (chan_buf s ChOut) = NumOut"
    if "k < length (collectors s)" "c_pc (collectors s ! k) = C_Send v" "main_pc s \<noteq> M_Exited"
    for k v
    using collector_send_room[OF w c that(3,1,2)] .
  have 0: "NumOut = 5" by (simp add: NumOut_def)
  from 0 1 2 3 4 5 6 7 8 show ?thesis by blast
qed

theorem channel_capacities_witness:
  "run six_items init \<noteq> None \<and>
   chans (the (run six_items init)) ChOut =
     Some \<lparr>ch_cap = 5, ch_buf = [1, 2, 3, 4, 5], ch_closed = False\<rparr> \<and>
   chans (the (run six_items init)) ChIn = Some \<lparr>ch_cap = 0, ch_buf = [], ch_closed = False\<rparr> \<and>
   c_pc (collectors (the (run six_items init)) ! 0) = C_Send 6 \<and>
   exec (Step (P_Collector 0)) (the (run six_items init)) = None \<and>
   passed ChOut (hist (the (run six_items init))) = [1, 2, 3, 4, 5]"
proof -
  have r: "run six_items init \<noteq> None" by code_simp
  then have s: "run six_items init = Some (the (run six_items init))" by simp
  have o: "chans (the (run six_items init)) ChOut =
      Some \<lparr>ch_cap = 5, ch_buf = [1, 2, 3, 4, 5], ch_closed = False\<rparr>"
    by code_simp
  have i: "chans (the (run six_items init)) ChIn =
      Some \<lparr>ch_cap = 0, ch_buf = [], ch_closed = False\<rparr>"
    by code_simp
  have k: "0 < length (collectors (the (run six_items init)))" by code_simp
  have pc: "c_pc (collectors (the (run six_items init)) ! 0) = C_Send 6" by code_simp
  have m: "main_pc (the (run six_items init)) \<noteq> M_Exited" by code_simp
  have t: "taken P_Main ChOut (hist (the (run six_items init))) = []" by code_simp
  note inst = channel_capacities[OF s]
  from inst k pc m have "exec (Step (P_Collector 0)) (the (run six_items init)) = None \<longleftrightarrow>
      length (chan_buf (the (run six_items init)) ChOut) = NumOut"
    by blast
  with o have 1: "exec (Step (P_Collector 0)) (the (run six_items init)) = None"
    by (simp add: chan_buf_def NumOut_def)
  from inst have "taken P_Main ChOut (hist (the (run six_items init))) @
      chan_buf (the (run six_items init)) ChOut = passed ChOut (hist (the (run six_items init)))"
    by blast
  with t o have 2: "passed ChOut (hist (the (run six_items init))) = [1, 2, 3, 4, 5]"
    by (simp add: chan_buf_def)
  from r o i pc 1 2 show ?thesis by (intro conjI)
qed

section \<open>The final checks\<close>

text \<open>
  C2 (amended). When a check fails, the process ends with status 1 and the message of the
  first failing check, in the order sum, count, distribution; the messages for the sum
  and the count carry the two conflicting values, the message for the distribution
  carries no value. When the three checks pass, \<open>main\<close> returns and the status is 0.
\<close>

theorem check_results_outcome:
  "fst (check_results iS s iC c am) =
     (if iS \<noteq> s then Fatalf Fmt_Sums_Not_Equal [iS, s]
      else if iC \<noteq> c then Fatalf Fmt_Counts_Not_Equal [iC, c]
      else if sum_list am \<noteq> iC then Fatalf Fmt_Split_Wrong []
      else Returned) \<and>
   exit_status (fst (check_results iS s iC c am)) =
     (if iS = s \<and> iC = c \<and> sum_list am = iC then 0 else 1)"
  by (auto simp: check_results_def Let_def subtract_all_sum_list)

theorem check_results_outcome_witness:
  "fst (check_results 7 6 3 3 [1, 0, 2, 0, 0]) = Fatalf Fmt_Sums_Not_Equal [7, 6] \<and>
   fst (check_results 6 6 4 3 [1, 0, 2, 0, 0]) = Fatalf Fmt_Counts_Not_Equal [4, 3] \<and>
   fst (check_results 6 6 3 3 [1, 0, 1, 0, 0]) = Fatalf Fmt_Split_Wrong [] \<and>
   fst (check_results 6 6 3 3 [1, 0, 2, 0, 0]) = Returned \<and>
   exit_status (fst (check_results 6 6 3 3 [1, 0, 2, 0, 0])) = 0 \<and>
   exit_status (fst (check_results 6 6 3 3 [1, 0, 1, 0, 0])) = 1"
  using check_results_outcome [of 7 6 3 3 "[1, 0, 2, 0, 0]"]
    check_results_outcome [of 6 6 4 3 "[1, 0, 2, 0, 0]"]
    check_results_outcome [of 6 6 3 3 "[1, 0, 1, 0, 0]"]
    check_results_outcome [of 6 6 3 3 "[1, 0, 2, 0, 0]"]
  by simp

text \<open>
  C2 as the specification states it fails: with equal sums, equal counts and lane counters
  that add up to 2 instead of 3, the message is the one of line 140, which has no value in
  it.
\<close>

theorem split_message_counterexample:
  "fst (check_results 6 6 3 3 [1, 0, 1, 0, 0]) = Fatalf Fmt_Split_Wrong [] \<and>
   \<not> (\<exists>f a b. fst (check_results 6 6 3 3 [1, 0, 1, 0, 0]) = Fatalf f [a, b])"
  by (simp add: check_results_def)

text \<open>
  C10. The checks run in the order sum, count, distribution: a sum mismatch is reported
  whatever the counts are, a count mismatch only when the sums agree. The distribution
  check subtracts every lane counter from \<open>inputCount\<close>, so that \<open>inputCount\<close> then holds
  the old count minus the sum of all lane counters, and asks for 0: after a run that
  passes the checks \<open>inputCount\<close> is 0, and the lane counters added up to the count.
\<close>

theorem checks_in_order:
  "(iS \<noteq> s \<longrightarrow>
      check_results iS s iC c am = (Fatalf Fmt_Sums_Not_Equal [iS, s], iC)) \<and>
   (iS = s \<longrightarrow> iC \<noteq> c \<longrightarrow>
      check_results iS s iC c am = (Fatalf Fmt_Counts_Not_Equal [iC, c], iC)) \<and>
   (iS = s \<longrightarrow> iC = c \<longrightarrow>
      check_results iS s iC c am =
        (if iC - sum_list am = 0 then Returned else Fatalf Fmt_Split_Wrong [],
         iC - sum_list am)) \<and>
   (fst (check_results iS s iC c am) = Returned \<longrightarrow>
      snd (check_results iS s iC c am) = 0 \<and> iS = s \<and> iC = c \<and> sum_list am = iC)"
  by (auto simp: check_results_def Let_def subtract_all_sum_list)

theorem checks_in_order_witness:
  "check_results 7 6 4 3 [1, 0, 2, 0, 0] = (Fatalf Fmt_Sums_Not_Equal [7, 6], 4) \<and>
   check_results 6 6 4 3 [1, 0, 2, 0, 0] = (Fatalf Fmt_Counts_Not_Equal [4, 3], 4) \<and>
   check_results 6 6 15 15 [1, 2, 3, 4, 5] = (Returned, 0) \<and>
   check_results 6 6 3 3 [1, 0, 2, 5, 7] = (Fatalf Fmt_Split_Wrong [], - 12) \<and>
   check_results 6 6 15 15 [1, 2, 3, 4, 4] = (Fatalf Fmt_Split_Wrong [], 1)"
  using checks_in_order [of 7 6 4 3 "[1, 0, 2, 0, 0]"]
    checks_in_order [of 6 6 4 3 "[1, 0, 2, 0, 0]"]
    checks_in_order [of 6 6 15 15 "[1, 2, 3, 4, 5]"]
    checks_in_order [of 6 6 3 3 "[1, 0, 2, 5, 7]"]
    checks_in_order [of 6 6 15 15 "[1, 2, 3, 4, 4]"]
  by simp

end
